theory Spec2Isabelle
  imports Main "HOL-Library.Sublist"
begin

section \<open>The event distributor of \<open>distributor.go\<close>\<close>

text \<open>
  The Go package holds two copies of one design: \<open>Distributor\<close>/\<open>Reader\<close> and the older
  \<open>EventDistributor\<close>/\<open>EventReader\<close>. Both structs have the same fields, so one record
  serves both; the methods of each copy are translated separately.

  Modelling decisions, all of them visible in the definitions below:
  \<^item> Every public method takes the mutex for its whole body, so a method is one atomic
    state transformer and the mutex itself is not represented.
  \<^item> \<open>int64\<close> and \<open>int\<close> values are unbounded integers: positions and refcounts grow by
    at most one per \<open>Submit\<close> or \<open>Subscribe\<close>, so the 64-bit range is out of reach, and
    on a 64-bit host the conversion \<open>int(...)\<close> changes nothing.
  \<^item> A Go panic is the outcome \<open>Panicked\<close>, returned together with the state as it is at
    the moment of the panic.
  \<^item> A channel is a number; the state records how many channels \<open>make\<close> has created and
    which of them are closed. Closing a closed channel panics, as in Go.
  \<^item> The callbacks are opaque functions whose results are discarded, so the distributor
    cannot depend on them; \<open>runCallbacks(d.onSubmit, v)\<close> is recorded as the call
    \<open>OnSubmit v\<close> in the list \<open>calls\<close>, and likewise for the two other callback lists.
    One recorded call stands for one pass over the registered callbacks of that list.
\<close>

subsection \<open>Data\<close>

datatype panic = NilDereference | IndexOutOfRange | CloseOfClosedChannel

datatype 'r outcome = Returned 'r | Panicked panic

type_synonym chan = nat

record 'a eventInfo =
  refcount :: int
  val :: 'a

record 'a Distributor =
  basePosition :: int
  buf :: "'a eventInfo list"
  nextRefcount :: int
  waiters :: "chan option"

datatype 'a callback = OnBufsizeChange int | OnSubmit 'a | OnFullyConsumed 'a

text \<open>
  The state the methods act on: the distributor, the channels of the Go runtime, and the
  callback invocations made so far.
\<close>

record 'a state =
  dist :: "'a Distributor"
  made :: nat
  closed :: "chan set"
  calls :: "'a callback list"

datatype distributorRef = Nil | Ref

record Reader =
  d :: distributorRef
  position :: int

subsection \<open>The primary variant: \<open>Distributor\<close> and \<open>Reader\<close>\<close>

definition New :: "'a Distributor" where
  "New = \<lparr>basePosition = 0, buf = [], nextRefcount = 0, waiters = None\<rparr>"

text \<open>
  \<open>closedChannel\<close> is created and closed when the package is initialised, before any
  distributor exists: it is channel 0 of the initial state.
\<close>

definition closedChannel :: chan where
  "closedChannel = 0"

definition initial :: "'a state" where
  "initial = \<lparr>dist = New, made = 1, closed = {closedChannel}, calls = []\<rparr>"

definition runCallbacks :: "('v \<Rightarrow> 'a callback) \<Rightarrow> 'v \<Rightarrow> 'a state \<Rightarrow> 'a state" where
  "runCallbacks fs v st = st\<lparr>calls := calls st @ [fs v]\<rparr>"

definition Submit :: "'a \<Rightarrow> 'a state \<Rightarrow> unit outcome \<times> 'a state" where
  "Submit v st0 =
     (let st1 = runCallbacks OnSubmit v st0;
          D = dist st1
      in if length (buf D) = 0 \<and> nextRefcount D = 0
         then (Returned (), runCallbacks OnFullyConsumed v st1)
         else
           let D2 = D\<lparr>buf := buf D @ [\<lparr>refcount = nextRefcount D, val = v\<rparr>],
                      nextRefcount := 0\<rparr>;
               st2 = st1\<lparr>dist := D2\<rparr>
           in case waiters D2 of
                None \<Rightarrow>
                  (Returned (), runCallbacks OnBufsizeChange (int (length (buf D2))) st2)
              | Some c \<Rightarrow>
                  if c \<in> closed st2 then (Panicked CloseOfClosedChannel, st2)
                  else
                    let st3 = st2\<lparr>closed := insert c (closed st2),
                                  dist := D2\<lparr>waiters := None\<rparr>\<rparr>
                    in (Returned (),
                        runCallbacks OnBufsizeChange (int (length (buf (dist st3)))) st3))"

definition Subscribe :: "'a state \<Rightarrow> Reader \<times> 'a state" where
  "Subscribe st =
     (let D = (dist st)\<lparr>nextRefcount := nextRefcount (dist st) + 1\<rparr>
      in (\<lparr>d = Ref, position = basePosition D + int (length (buf D))\<rparr>,
          st\<lparr>dist := D\<rparr>))"

definition WaitChan :: "Reader \<Rightarrow> 'a state \<Rightarrow> chan outcome \<times> 'a state" where
  "WaitChan r st =
     (case d r of
        Nil \<Rightarrow> (Panicked NilDereference, st)
      | Ref \<Rightarrow>
          let D = dist st
          in if position r - basePosition D < int (length (buf D))
             then (Returned closedChannel, st)
             else (case waiters D of
                     None \<Rightarrow>
                       let c = made st
                       in (Returned c,
                           st\<lparr>made := Suc (made st), dist := D\<lparr>waiters := Some c\<rparr>\<rparr>)
                   | Some c \<Rightarrow> (Returned c, st)))"

text \<open>
  The \<open>for\<close> loop of \<open>cleanupOldEvents\<close>: it returns the final \<open>firstNonEmpty\<close> and has
  called \<open>onFullyConsumed\<close> for every slot it passed.
\<close>

function scanFirstNonEmpty :: "nat \<Rightarrow> 'a state \<Rightarrow> nat \<times> 'a state" where
  "scanFirstNonEmpty firstNonEmpty st =
     (if firstNonEmpty < length (buf (dist st))
      then if refcount (buf (dist st) ! firstNonEmpty) \<noteq> 0
           then (firstNonEmpty, st)
           else scanFirstNonEmpty (firstNonEmpty + 1)
                  (runCallbacks OnFullyConsumed (val (buf (dist st) ! firstNonEmpty)) st)
      else (firstNonEmpty, st))"
  by pat_completeness auto
termination
  by (relation "measure (\<lambda>(i, st). length (buf (dist st)) - i)")
     (auto simp: runCallbacks_def)

declare scanFirstNonEmpty.simps [simp del]

definition cleanupOldEvents :: "'a state \<Rightarrow> 'a state" where
  "cleanupOldEvents st =
     (if length (buf (dist st)) = 0 then st
      else
        let (firstNonEmpty, st1) = scanFirstNonEmpty 0 st
        in if firstNonEmpty = 0 then st1
           else
             let D = dist st1;
                 D1 = (if firstNonEmpty = length (buf D) then D\<lparr>buf := []\<rparr>
                       else D\<lparr>buf := drop firstNonEmpty (buf D)\<rparr>);
                 D2 = D1\<lparr>basePosition := basePosition D1 + int firstNonEmpty\<rparr>
             in runCallbacks OnBufsizeChange (int (length (buf D2))) (st1\<lparr>dist := D2\<rparr>))"

text \<open>Adding \<open>k\<close> to the refcount of slot \<open>i\<close>: \<open>d.buf[i].refcount += k\<close>.\<close>

definition addRefcount :: "nat \<Rightarrow> int \<Rightarrow> 'a eventInfo list \<Rightarrow> 'a eventInfo list" where
  "addRefcount i k xs = xs[i := (xs ! i)\<lparr>refcount := refcount (xs ! i) + k\<rparr>]"

definition Consume :: "Reader \<Rightarrow> 'a state \<Rightarrow> 'a outcome \<times> Reader \<times> 'a state" where
  "Consume r st =
     (case d r of
        Nil \<Rightarrow> (Panicked NilDereference, r, st)
      | Ref \<Rightarrow>
          let D = dist st;
              idx = position r - basePosition D
          in if idx < 0 \<or> int (length (buf D)) \<le> idx
             then (Panicked IndexOutOfRange, r, st)
             else
               let v = val (buf D ! nat idx);
                   D1 = D\<lparr>buf := addRefcount (nat idx) (- 1) (buf D)\<rparr>;
                   r1 = r\<lparr>position := position r + 1\<rparr>;
                   D2 = (if idx + 1 < int (length (buf D1))
                         then D1\<lparr>buf := addRefcount (nat (idx + 1)) 1 (buf D1)\<rparr>
                         else D1\<lparr>nextRefcount := nextRefcount D1 + 1\<rparr>)
               in (Returned v, r1, cleanupOldEvents (st\<lparr>dist := D2\<rparr>)))"

definition Unsubscribe :: "Reader \<Rightarrow> 'a state \<Rightarrow> unit outcome \<times> Reader \<times> 'a state" where
  "Unsubscribe r st =
     (case d r of
        Nil \<Rightarrow> (Panicked NilDereference, r, st)
      | Ref \<Rightarrow>
          let D = dist st;
              idx = position r - basePosition D
          in if idx < int (length (buf D))
             then if idx < 0 then (Panicked IndexOutOfRange, r, st)
                  else
                    let st1 = st\<lparr>dist := D\<lparr>buf := addRefcount (nat idx) (- 1) (buf D)\<rparr>\<rparr>;
                        st2 = (if idx = 0 then cleanupOldEvents st1 else st1)
                    in (Returned (), r\<lparr>d := Nil\<rparr>, st2)
             else (Returned (), r\<lparr>d := Nil\<rparr>,
                   st\<lparr>dist := D\<lparr>nextRefcount := nextRefcount D - 1\<rparr>\<rparr>))"

subsection \<open>The legacy variant: \<open>EventDistributor\<close> and \<open>EventReader\<close>\<close>

definition NewEventDistributor :: "'a Distributor" where
  "NewEventDistributor = \<lparr>basePosition = 0, buf = [], nextRefcount = 0, waiters = None\<rparr>"

definition EventDistributor_Submit :: "'a \<Rightarrow> 'a state \<Rightarrow> unit outcome \<times> 'a state" where
  "EventDistributor_Submit v st0 =
     (let st1 = runCallbacks OnSubmit v st0;
          D = dist st1
      in if length (buf D) = 0 \<and> nextRefcount D = 0
         then (Returned (), runCallbacks OnFullyConsumed v st1)
         else
           let D2 = D\<lparr>buf := buf D @ [\<lparr>refcount = nextRefcount D, val = v\<rparr>],
                      nextRefcount := 0\<rparr>;
               st2 = st1\<lparr>dist := D2\<rparr>
           in case waiters D2 of
                None \<Rightarrow>
                  (Returned (), runCallbacks OnBufsizeChange (int (length (buf D2))) st2)
              | Some c \<Rightarrow>
                  if c \<in> closed st2 then (Panicked CloseOfClosedChannel, st2)
                  else
                    let st3 = st2\<lparr>closed := insert c (closed st2),
                                  dist := D2\<lparr>waiters := None\<rparr>\<rparr>
                    in (Returned (),
                        runCallbacks OnBufsizeChange (int (length (buf (dist st3)))) st3))"

definition EventDistributor_Subscribe :: "'a state \<Rightarrow> Reader \<times> 'a state" where
  "EventDistributor_Subscribe st =
     (let D = (dist st)\<lparr>nextRefcount := nextRefcount (dist st) + 1\<rparr>
      in (\<lparr>d = Ref, position = basePosition D + int (length (buf D))\<rparr>,
          st\<lparr>dist := D\<rparr>))"

definition EventReader_WaitChan :: "Reader \<Rightarrow> 'a state \<Rightarrow> chan outcome \<times> 'a state" where
  "EventReader_WaitChan r st =
     (case d r of
        Nil \<Rightarrow> (Panicked NilDereference, st)
      | Ref \<Rightarrow>
          let D = dist st
          in if position r - basePosition D < int (length (buf D))
             then (Returned closedChannel, st)
             else (case waiters D of
                     None \<Rightarrow>
                       let c = made st
                       in (Returned c,
                           st\<lparr>made := Suc (made st), dist := D\<lparr>waiters := Some c\<rparr>\<rparr>)
                   | Some c \<Rightarrow> (Returned c, st)))"

function EventDistributor_scanFirstNonEmpty :: "nat \<Rightarrow> 'a state \<Rightarrow> nat \<times> 'a state" where
  "EventDistributor_scanFirstNonEmpty firstNonEmpty st =
     (if firstNonEmpty < length (buf (dist st))
      then if refcount (buf (dist st) ! firstNonEmpty) \<noteq> 0
           then (firstNonEmpty, st)
           else EventDistributor_scanFirstNonEmpty (firstNonEmpty + 1)
                  (runCallbacks OnFullyConsumed (val (buf (dist st) ! firstNonEmpty)) st)
      else (firstNonEmpty, st))"
  by pat_completeness auto
termination
  by (relation "measure (\<lambda>(i, st). length (buf (dist st)) - i)")
     (auto simp: runCallbacks_def)

declare EventDistributor_scanFirstNonEmpty.simps [simp del]

definition EventDistributor_cleanupOldEvents :: "'a state \<Rightarrow> 'a state" where
  "EventDistributor_cleanupOldEvents st =
     (if length (buf (dist st)) = 0 then st
      else
        let (firstNonEmpty, st1) = EventDistributor_scanFirstNonEmpty 0 st
        in if firstNonEmpty = 0 then st1
           else
             let D = dist st1;
                 D1 = (if firstNonEmpty = length (buf D) then D\<lparr>buf := []\<rparr>
                       else D\<lparr>buf := drop firstNonEmpty (buf D)\<rparr>);
                 D2 = D1\<lparr>basePosition := basePosition D1 + int firstNonEmpty\<rparr>
             in runCallbacks OnBufsizeChange (int (length (buf D2))) (st1\<lparr>dist := D2\<rparr>))"

text \<open>\<open>EventReader.Consume\<close> has no statement \<open>r.position += 1\<close>: the Reader comes back as it was.\<close>

definition EventReader_Consume :: "Reader \<Rightarrow> 'a state \<Rightarrow> 'a outcome \<times> Reader \<times> 'a state" where
  "EventReader_Consume r st =
     (case d r of
        Nil \<Rightarrow> (Panicked NilDereference, r, st)
      | Ref \<Rightarrow>
          let D = dist st;
              idx = position r - basePosition D
          in if idx < 0 \<or> int (length (buf D)) \<le> idx
             then (Panicked IndexOutOfRange, r, st)
             else
               let v = val (buf D ! nat idx);
                   D1 = D\<lparr>buf := addRefcount (nat idx) (- 1) (buf D)\<rparr>;
                   D2 = (if idx + 1 < int (length (buf D1))
                         then D1\<lparr>buf := addRefcount (nat (idx + 1)) 1 (buf D1)\<rparr>
                         else D1\<lparr>nextRefcount := nextRefcount D1 + 1\<rparr>)
               in (Returned v, r, EventDistributor_cleanupOldEvents (st\<lparr>dist := D2\<rparr>)))"

definition EventReader_Unsubscribe ::
  "Reader \<Rightarrow> 'a state \<Rightarrow> unit outcome \<times> Reader \<times> 'a state" where
  "EventReader_Unsubscribe r st =
     (case d r of
        Nil \<Rightarrow> (Panicked NilDereference, r, st)
      | Ref \<Rightarrow>
          let D = dist st;
              idx = position r - basePosition D
          in if idx < int (length (buf D))
             then if idx < 0 then (Panicked IndexOutOfRange, r, st)
                  else
                    let st1 = st\<lparr>dist := D\<lparr>buf := addRefcount (nat idx) (- 1) (buf D)\<rparr>\<rparr>;
                        st2 = (if idx = 0 then EventDistributor_cleanupOldEvents st1 else st1)
                    in (Returned (), r\<lparr>d := Nil\<rparr>, st2)
             else (Returned (), r\<lparr>d := Nil\<rparr>,
                   st\<lparr>dist := D\<lparr>nextRefcount := nextRefcount D - 1\<rparr>\<rparr>))"

subsection \<open>Programs that use one distributor\<close>

text \<open>
  A client program owns the Reader values that \<open>Subscribe\<close> returned, each in a variable of
  its own (the list \<open>readers\<close>; Reader values are not copied), and calls the methods in some
  order. A call that panics leaves the state it had reached, and the program carries on
  (the panic is recovered), so every behaviour of a client is a run of \<open>exec\<close>.

  \<open>appended\<close> is a history variable that no method reads: the values that \<open>Submit\<close> has put
  into the buffer so far, oldest first. The slot of absolute position \<open>p\<close> was filled with
  \<open>appended ! p\<close>.
\<close>

record 'a program =
  proc :: "'a state"
  readers :: "Reader list"
  appended :: "'a list"

datatype 'a operation =
  DoSubmit 'a | DoSubscribe | DoWaitChan nat | DoConsume nat | DoUnsubscribe nat

fun step :: "'a operation \<Rightarrow> 'a program \<Rightarrow> 'a program" where
  "step (DoSubmit v) P =
     (let (out, st) = Submit v (proc P)
      in P\<lparr>proc := st,
           appended := (if length (buf (dist st)) = length (buf (dist (proc P)))
                        then appended P else appended P @ [v])\<rparr>)"
| "step DoSubscribe P =
     (let (r, st) = Subscribe (proc P)
      in P\<lparr>proc := st, readers := readers P @ [r]\<rparr>)"
| "step (DoWaitChan i) P =
     (if i < length (readers P)
      then P\<lparr>proc := snd (WaitChan (readers P ! i) (proc P))\<rparr>
      else P)"
| "step (DoConsume i) P =
     (if i < length (readers P)
      then let (out, r, st) = Consume (readers P ! i) (proc P)
           in P\<lparr>proc := st, readers := (readers P)[i := r]\<rparr>
      else P)"
| "step (DoUnsubscribe i) P =
     (if i < length (readers P)
      then let (out, r, st) = Unsubscribe (readers P ! i) (proc P)
           in P\<lparr>proc := st, readers := (readers P)[i := r]\<rparr>
      else P)"

definition start :: "'a program" where
  "start = \<lparr>proc = initial, readers = [], appended = []\<rparr>"

definition exec :: "'a operation list \<Rightarrow> 'a program" where
  "exec ops = foldl (\<lambda>P op. step op P) start ops"

text \<open>The number of live Readers (not yet unsubscribed) whose position is \<open>p\<close>.\<close>

definition claims :: "Reader list \<Rightarrow> int \<Rightarrow> int" where
  "claims rs p = int (length (filter (\<lambda>r. d r = Ref \<and> position r = p) rs))"

text \<open>The values passed to \<open>onSubmit\<close> and to \<open>onFullyConsumed\<close> so far, in order.\<close>

fun submitted :: "'a callback list \<Rightarrow> 'a list" where
  "submitted [] = []"
| "submitted (OnSubmit v # cs) = v # submitted cs"
| "submitted (c # cs) = submitted cs"

fun fullyConsumed :: "'a callback list \<Rightarrow> 'a list" where
  "fullyConsumed [] = []"
| "fullyConsumed (OnFullyConsumed v # cs) = v # fullyConsumed cs"
| "fullyConsumed (c # cs) = fullyConsumed cs"

fun bufsizeChanges :: "'a callback list \<Rightarrow> int list" where
  "bufsizeChanges [] = []"
| "bufsizeChanges (OnBufsizeChange n # cs) = n # bufsizeChanges cs"
| "bufsizeChanges (c # cs) = bufsizeChanges cs"

text \<open>A slot that \<open>cleanupOldEvents\<close> may drop when it is at the front.\<close>

definition unclaimed :: "'a eventInfo \<Rightarrow> bool" where
  "unclaimed e \<longleftrightarrow> refcount e = 0"

text \<open>The values passed to \<open>Submit\<close> by a sequence of operations, in order.\<close>

fun submits :: "'a operation list \<Rightarrow> 'a list" where
  "submits [] = []"
| "submits (DoSubmit v # ops) = v # submits ops"
| "submits (op # ops) = submits ops"

text \<open>
  What the Reader of index \<open>i\<close> has received from its \<open>Consume\<close> calls in the course of a
  sequence of operations, oldest first. A call that panics delivers nothing.
\<close>

definition returned :: "'r outcome \<Rightarrow> 'r list" where
  "returned out = (case out of Returned v \<Rightarrow> [v] | Panicked p \<Rightarrow> [])"

fun consumedIn :: "nat \<Rightarrow> 'a operation \<Rightarrow> 'a program \<Rightarrow> 'a list" where
  "consumedIn i (DoConsume k) P =
     (if k = i \<and> k < length (readers P)
      then returned (fst (Consume (readers P ! k) (proc P))) else [])"
| "consumedIn i op P = []"

fun consumedFrom :: "nat \<Rightarrow> 'a program \<Rightarrow> 'a operation list \<Rightarrow> 'a list" where
  "consumedFrom i P [] = []"
| "consumedFrom i P (op # ops) = consumedIn i op P @ consumedFrom i (step op P) ops"

definition consumedBy :: "nat \<Rightarrow> 'a operation list \<Rightarrow> 'a list" where
  "consumedBy i ops = consumedFrom i start ops"

subsection \<open>Invariants of a running program\<close>

definition tailPosition :: "'a Distributor \<Rightarrow> int" where
  "tailPosition D = basePosition D + int (length (buf D))"

definition refcountsExact :: "'a program \<Rightarrow> bool" where
  "refcountsExact P \<longleftrightarrow>
     (let D = dist (proc P)
      in nextRefcount D = claims (readers P) (tailPosition D) \<and>
         (\<forall>i < length (buf D).
            refcount (buf D ! i) = claims (readers P) (basePosition D + int i)))"

definition readersInRange :: "'a program \<Rightarrow> bool" where
  "readersInRange P \<longleftrightarrow>
     (let D = dist (proc P)
      in 0 \<le> basePosition D \<and>
         (\<forall>r \<in> set (readers P).
            d r = Ref \<longrightarrow> basePosition D \<le> position r \<and> position r \<le> tailPosition D))"

definition headClaimed :: "'a Distributor \<Rightarrow> bool" where
  "headClaimed D \<longleftrightarrow> (case buf D of [] \<Rightarrow> True | e # es \<Rightarrow> 0 < refcount e)"

definition historyKept :: "'a program \<Rightarrow> bool" where
  "historyKept P \<longleftrightarrow>
     (let D = dist (proc P)
      in int (length (appended P)) = tailPosition D \<and>
         map val (buf D) = drop (nat (basePosition D)) (appended P))"

definition channelsOk :: "'a state \<Rightarrow> bool" where
  "channelsOk st \<longleftrightarrow>
     closedChannel \<in> closed st \<and>
     (\<forall>c \<in> closed st. c < made st) \<and>
     (case waiters (dist st) of None \<Rightarrow> True | Some c \<Rightarrow> c < made st \<and> c \<notin> closed st)"

definition callsAccount :: "'a state \<Rightarrow> bool" where
  "callsAccount st \<longleftrightarrow>
     fullyConsumed (calls st) @ map val (buf (dist st)) = submitted (calls st)"

text \<open>Everything but \<open>headClaimed\<close>: what holds between a refcount change and the trim.\<close>

definition consistent :: "'a program \<Rightarrow> bool" where
  "consistent P \<longleftrightarrow>
     refcountsExact P \<and> readersInRange P \<and> historyKept P \<and>
     channelsOk (proc P) \<and> callsAccount (proc P)"

definition invariant :: "'a program \<Rightarrow> bool" where
  "invariant P \<longleftrightarrow> consistent P \<and> headClaimed (dist (proc P))"

text \<open>
  What one method call may do to the \<open>onBufsizeChange\<close> callbacks, from the state before
  to the state after: nothing when the buffer has kept its length, one call with the new
  length otherwise.
\<close>

definition reportsLength :: "'a state \<Rightarrow> 'a state \<Rightarrow> bool" where
  "reportsLength st st' \<longleftrightarrow>
     bufsizeChanges (calls st') =
       bufsizeChanges (calls st) @
         (if length (buf (dist st')) = length (buf (dist st)) then []
          else [int (length (buf (dist st')))])"

section \<open>Properties\<close>

subsection \<open>The trim\<close>

lemma scanFirstNonEmpty_eq:
  "i \<le> length (buf (dist st)) \<Longrightarrow>
   scanFirstNonEmpty i st =
     (i + length (takeWhile unclaimed (drop i (buf (dist st)))),
      st\<lparr>calls := calls st @
            map (\<lambda>e. OnFullyConsumed (val e)) (takeWhile unclaimed (drop i (buf (dist st))))\<rparr>)"
proof (induction i st rule: scanFirstNonEmpty.induct)
  case (1 i st)
  show ?case
  proof (cases "i < length (buf (dist st))")
    case False
    with "1.prems" show ?thesis by (subst scanFirstNonEmpty.simps) simp
  next
    case True
    then have dr: "drop i (buf (dist st)) = buf (dist st) ! i # drop (Suc i) (buf (dist st))"
      by (simp add: Cons_nth_drop_Suc)
    show ?thesis
    proof (cases "refcount (buf (dist st) ! i) \<noteq> 0")
      case nonzero: True
      then have "\<not> unclaimed (buf (dist st) ! i)" by (simp add: unclaimed_def)
      with nonzero True dr show ?thesis
        by (subst scanFirstNonEmpty.simps) simp
    next
      case zero: False
      then have u: "unclaimed (buf (dist st) ! i)" by (simp add: unclaimed_def)
      from zero True have
        "scanFirstNonEmpty i st = scanFirstNonEmpty (i + 1)
           (runCallbacks OnFullyConsumed (val (buf (dist st) ! i)) st)"
        by (subst scanFirstNonEmpty.simps) simp
      also have "\<dots> = (i + length (takeWhile unclaimed (drop i (buf (dist st)))),
        st\<lparr>calls := calls st @
            map (\<lambda>e. OnFullyConsumed (val e)) (takeWhile unclaimed (drop i (buf (dist st))))\<rparr>)"
        using "1.IH"[OF True] zero u True dr
        by (simp add: runCallbacks_def)
      finally show ?thesis .
    qed
  qed
qed

lemma cleanupOldEvents_eq:
  "cleanupOldEvents st =
     (let dropped = takeWhile unclaimed (buf (dist st));
          kept = dropWhile unclaimed (buf (dist st))
      in st\<lparr>dist := (dist st)\<lparr>buf := kept,
                basePosition := basePosition (dist st) + int (length dropped)\<rparr>,
             calls := calls st @ map (\<lambda>e. OnFullyConsumed (val e)) dropped @
                (if dropped = [] then [] else [OnBufsizeChange (int (length kept))])\<rparr>)"
proof (cases "buf (dist st) = []")
  case True
  then show ?thesis by (simp add: cleanupOldEvents_def)
next
  case False
  let ?xs = "buf (dist st)"
  have dw: "dropWhile unclaimed ?xs = drop (length (takeWhile unclaimed ?xs)) ?xs"
    by (simp add: dropWhile_eq_drop)
  show ?thesis
  proof (cases "takeWhile unclaimed ?xs = []")
    case True
    then have "dropWhile unclaimed ?xs = ?xs"
      by (metis takeWhile_dropWhile_id append_Nil)
    with True False show ?thesis
      by (simp add: cleanupOldEvents_def scanFirstNonEmpty_eq)
  next
    case nz: False
    with False dw show ?thesis
      by (simp add: cleanupOldEvents_def scanFirstNonEmpty_eq Let_def runCallbacks_def)
  qed
qed

text \<open>
  C5. \<open>cleanupOldEvents\<close> drops exactly the longest prefix of slots whose refcount is 0:
  it calls \<open>onFullyConsumed\<close> with the value of each dropped slot, front to back, adds
  the number of dropped slots to \<open>basePosition\<close>, and calls \<open>onBufsizeChange\<close> with the new
  length if and only if it dropped a slot. Every dropped slot has refcount 0; the first
  slot that stays has a refcount other than 0, and whatever follows it stays too,
  zero refcount or not.
\<close>

theorem cleanupOldEvents_drops_unclaimed_prefix:
  "cleanupOldEvents st =
     (let dropped = takeWhile (\<lambda>e. refcount e = 0) (buf (dist st));
          kept = dropWhile (\<lambda>e. refcount e = 0) (buf (dist st))
      in st\<lparr>dist := (dist st)\<lparr>buf := kept,
                basePosition := basePosition (dist st) + int (length dropped)\<rparr>,
             calls := calls st @ map (\<lambda>e. OnFullyConsumed (val e)) dropped @
                (if dropped = [] then [] else [OnBufsizeChange (int (length kept))])\<rparr>)"
proof -
  have "unclaimed = (\<lambda>e::'a eventInfo. refcount e = 0)"
    by (rule ext) (simp add: unclaimed_def)
  then show ?thesis
    using cleanupOldEvents_eq [of st] by simp
qed

theorem cleanupOldEvents_drops_unclaimed_prefix_witness:
  "cleanupOldEvents
     (initial\<lparr>dist := New\<lparr>buf := [\<lparr>refcount = 0, val = ''a''\<rparr>, \<lparr>refcount = 0, val = ''b''\<rparr>,
                                 \<lparr>refcount = 2, val = ''c''\<rparr>, \<lparr>refcount = 0, val = ''e''\<rparr>]\<rparr>\<rparr>) =
   initial\<lparr>dist := New\<lparr>buf := [\<lparr>refcount = 2, val = ''c''\<rparr>, \<lparr>refcount = 0, val = ''e''\<rparr>],
                        basePosition := 2\<rparr>,
           calls := [OnFullyConsumed ''a'', OnFullyConsumed ''b'', OnBufsizeChange 2]\<rparr>"
  using cleanupOldEvents_drops_unclaimed_prefix
          [of "initial\<lparr>dist := New\<lparr>buf := [\<lparr>refcount = 0, val = ''a''\<rparr>,
                 \<lparr>refcount = 0, val = ''b''\<rparr>, \<lparr>refcount = 2, val = ''c''\<rparr>,
                 \<lparr>refcount = 0, val = ''e''\<rparr>]\<rparr>\<rparr>"]
  by (simp add: initial_def New_def)

subsection \<open>Submit without an audience\<close>

text \<open>
  C4. When the buffer is empty and \<open>nextRefcount\<close> is 0, \<open>Submit v\<close> returns after calling
  \<open>onSubmit v\<close> and then \<open>onFullyConsumed v\<close>, and nothing else has happened: the
  distributor (buffer, \<open>basePosition\<close>, \<open>nextRefcount\<close>, \<open>waiters\<close>) and the channels are as
  before, and \<open>onBufsizeChange\<close> has not been called.
\<close>

theorem Submit_no_audience:
  assumes "buf (dist st) = []" and "nextRefcount (dist st) = 0"
  shows "Submit v st = (Returned (), st\<lparr>calls := calls st @ [OnSubmit v, OnFullyConsumed v]\<rparr>)"
  using assms by (simp add: Submit_def runCallbacks_def)

theorem Submit_no_audience_witness:
  "buf (dist (initial :: string state)) = [] \<and>
   nextRefcount (dist (initial :: string state)) = 0 \<and>
   Submit ''a'' initial =
     (Returned (), initial\<lparr>calls := [OnSubmit ''a'', OnFullyConsumed ''a'']\<rparr>)"
proof -
  have e: "buf (dist (initial :: string state)) = []"
    and n: "nextRefcount (dist (initial :: string state)) = 0"
    by (simp_all add: initial_def New_def)
  have "calls (initial :: string state) = []"
    by (simp add: initial_def)
  with Submit_no_audience [OF e n, of "''a''"] e n show ?thesis
    by simp
qed

subsection \<open>Counting live Readers\<close>

lemma claims_Nil [simp]: "claims [] p = 0"
  by (simp add: claims_def)

lemma claims_Cons:
  "claims (r # rs) p = (if d r = Ref \<and> position r = p then 1 else 0) + claims rs p"
  by (simp add: claims_def)

lemma claims_append:
  "claims (rs @ [r]) p = claims rs p + (if d r = Ref \<and> position r = p then 1 else 0)"
  by (simp add: claims_def)

lemma claims_update:
  "i < length rs \<Longrightarrow>
   claims (rs[i := r']) p =
     claims rs p - (if d (rs ! i) = Ref \<and> position (rs ! i) = p then 1 else 0)
                 + (if d r' = Ref \<and> position r' = p then 1 else 0)"
proof (induction rs arbitrary: i)
  case Nil
  then show ?case by simp
next
  case (Cons a rs)
  show ?case
  proof (cases i)
    case 0
    then show ?thesis by (simp add: claims_Cons)
  next
    case (Suc j)
    with Cons.prems have "j < length rs" by simp
    from Cons.IH [OF this] Suc show ?thesis by (simp add: claims_Cons)
  qed
qed

lemma claims_nonneg: "0 \<le> claims rs p"
  by (simp add: claims_def)

lemma claims_pos: "r \<in> set rs \<Longrightarrow> d r = Ref \<Longrightarrow> position r = p \<Longrightarrow> 0 < claims rs p"
  by (induction rs) (auto simp: claims_Cons intro: add_pos_nonneg claims_nonneg)

lemma claims_zero: "(\<And>r. r \<in> set rs \<Longrightarrow> d r = Ref \<Longrightarrow> position r \<noteq> p) \<Longrightarrow> claims rs p = 0"
  by (induction rs) (auto simp: claims_Cons)

lemma length_addRefcount [simp]: "length (addRefcount i k xs) = length xs"
  by (simp add: addRefcount_def)

lemma map_val_addRefcount [simp]: "map val (addRefcount i k xs) = map val xs"
proof (cases "i < length xs")
  case True
  then have "(map val xs)[i := val (xs ! i)] = map val xs"
    by (metis list_update_id nth_map)
  then show ?thesis by (simp add: addRefcount_def map_update)
next
  case False
  then show ?thesis by (simp add: addRefcount_def list_update_beyond)
qed

lemma refcount_addRefcount:
  "j < length xs \<Longrightarrow>
   refcount (addRefcount i k xs ! j) = refcount (xs ! j) + (if j = i then k else 0)"
  by (simp add: addRefcount_def nth_list_update)

lemma headClaimed_iff: "headClaimed D \<longleftrightarrow> (buf D \<noteq> [] \<longrightarrow> 0 < refcount (buf D ! 0))"
  by (simp add: headClaimed_def split: list.splits)

lemma fullyConsumed_append [simp]:
  "fullyConsumed (xs @ ys) = fullyConsumed xs @ fullyConsumed ys"
  by (induction xs rule: fullyConsumed.induct) simp_all

lemma submitted_append [simp]: "submitted (xs @ ys) = submitted xs @ submitted ys"
  by (induction xs rule: submitted.induct) simp_all

lemma bufsizeChanges_append [simp]:
  "bufsizeChanges (xs @ ys) = bufsizeChanges xs @ bufsizeChanges ys"
  by (induction xs rule: bufsizeChanges.induct) simp_all

lemma calls_of_dropped [simp]:
  "fullyConsumed (map (\<lambda>e. OnFullyConsumed (val e)) es) = map val es"
  "submitted (map (\<lambda>e. OnFullyConsumed (val e)) es) = []"
  "bufsizeChanges (map (\<lambda>e. OnFullyConsumed (val e)) es) = []"
  by (induction es) simp_all

lemma cleanupOldEvents_index:
  "\<exists>k. k \<le> length (buf (dist st)) \<and>
    (\<forall>j<k. refcount (buf (dist st) ! j) = 0) \<and>
    (k < length (buf (dist st)) \<longrightarrow> refcount (buf (dist st) ! k) \<noteq> 0) \<and>
    cleanupOldEvents st =
       st\<lparr>dist := (dist st)\<lparr>buf := drop k (buf (dist st)),
                 basePosition := basePosition (dist st) + int k\<rparr>,
          calls := calls st @ map (\<lambda>e. OnFullyConsumed (val e)) (take k (buf (dist st))) @
            (if k = 0 then [] else [OnBufsizeChange (int (length (buf (dist st)) - k))])\<rparr>"
proof -
  let ?xs = "buf (dist st)"
  let ?k = "length (takeWhile unclaimed ?xs)"
  have 1: "?k \<le> length ?xs" by (rule length_takeWhile_le)
  have 2: "refcount (?xs ! j) = 0" if "j < ?k" for j
  proof -
    from that have "takeWhile unclaimed ?xs ! j \<in> set (takeWhile unclaimed ?xs)"
      by simp
    then have "unclaimed (takeWhile unclaimed ?xs ! j)" by (rule set_takeWhileD [THEN conjunct2])
    with that show ?thesis by (simp add: takeWhile_nth unclaimed_def)
  qed
  have 3: "refcount (?xs ! ?k) \<noteq> 0" if "?k < length ?xs"
    using nth_length_takeWhile [OF that] by (simp add: unclaimed_def)
  have 4: "cleanupOldEvents st =
       st\<lparr>dist := (dist st)\<lparr>buf := drop ?k ?xs,
                 basePosition := basePosition (dist st) + int ?k\<rparr>,
          calls := calls st @ map (\<lambda>e. OnFullyConsumed (val e)) (take ?k ?xs) @
            (if ?k = 0 then [] else [OnBufsizeChange (int (length ?xs - ?k))])\<rparr>"
    by (simp add: cleanupOldEvents_eq Let_def dropWhile_eq_drop takeWhile_eq_take [symmetric])
  from 1 2 3 4 show ?thesis by blast
qed


lemma cleanupOldEvents_consistent:
  assumes "consistent P"
  shows "invariant (P\<lparr>proc := cleanupOldEvents (proc P)\<rparr>)"
proof -
  let ?D = "dist (proc P)"
  let ?xs = "buf ?D"
  from cleanupOldEvents_index [of "proc P"]
  obtain k where k: "k \<le> length ?xs"
    and zero: "\<And>j. j < k \<Longrightarrow> refcount (?xs ! j) = 0"
    and stop: "k < length ?xs \<Longrightarrow> refcount (?xs ! k) \<noteq> 0"
    and eq: "cleanupOldEvents (proc P) =
       (proc P)\<lparr>dist := ?D\<lparr>buf := drop k ?xs, basePosition := basePosition ?D + int k\<rparr>,
          calls := calls (proc P) @ map (\<lambda>e. OnFullyConsumed (val e)) (take k ?xs) @
            (if k = 0 then [] else [OnBufsizeChange (int (length ?xs - k))])\<rparr>"
    by blast
  let ?P' = "P\<lparr>proc := cleanupOldEvents (proc P)\<rparr>"
  from assms have rc: "refcountsExact P" and rg: "readersInRange P" and hk: "historyKept P"
    and ch: "channelsOk (proc P)" and ca: "callsAccount (proc P)"
    by (simp_all add: consistent_def)
  have base0: "0 \<le> basePosition ?D"
    using rg by (simp add: readersInRange_def Let_def)
  have slot: "refcount (?xs ! i) = claims (readers P) (basePosition ?D + int i)"
    if "i < length ?xs" for i
    using rc that by (simp add: refcountsExact_def Let_def)
  have tail: "tailPosition (dist (cleanupOldEvents (proc P))) = tailPosition ?D"
    using k by (simp add: eq tailPosition_def)
  have buf': "buf (dist (cleanupOldEvents (proc P))) = drop k ?xs"
    and base': "basePosition (dist (cleanupOldEvents (proc P))) = basePosition ?D + int k"
    and next': "nextRefcount (dist (cleanupOldEvents (proc P))) = nextRefcount ?D"
    and waiters': "waiters (dist (cleanupOldEvents (proc P))) = waiters ?D"
    and made': "made (cleanupOldEvents (proc P)) = made (proc P)"
    and closed': "closed (cleanupOldEvents (proc P)) = closed (proc P)"
    by (simp_all add: eq)
  have "refcountsExact ?P'"
    using rc k slot by (simp add: refcountsExact_def Let_def tail buf' base' next' add.assoc)
  moreover have "readersInRange ?P'"
  proof -
    have "basePosition ?D + int k \<le> position r"
      if "r \<in> set (readers P)" "d r = Ref" for r
    proof (rule ccontr)
      assume "\<not> basePosition ?D + int k \<le> position r"
      moreover from rg that have "basePosition ?D \<le> position r"
        by (simp add: readersInRange_def Let_def)
      ultimately have "nat (position r - basePosition ?D) < k"
        and "position r = basePosition ?D + int (nat (position r - basePosition ?D))"
        by simp_all
      then obtain j where j: "j < k" "position r = basePosition ?D + int j"
        by blast
      with k have "refcount (?xs ! j) = claims (readers P) (position r)"
        by (simp add: slot)
      with zero [OF j(1)] claims_pos [OF that refl] show False by simp
    qed
    with rg base0 show ?thesis
      by (simp add: readersInRange_def Let_def tail base')
  qed
  moreover have "historyKept ?P'"
  proof -
    have "map val (drop k ?xs) = drop k (map val ?xs)"
      by (simp add: drop_map)
    also have "\<dots> = drop k (drop (nat (basePosition ?D)) (appended P))"
      using hk by (simp add: historyKept_def Let_def)
    also have "\<dots> = drop (nat (basePosition ?D + int k)) (appended P)"
      using base0 by (simp add: nat_add_distrib add.commute)
    finally have "map val (drop k ?xs) = drop (nat (basePosition ?D + int k)) (appended P)" .
    with hk show ?thesis
      by (simp add: historyKept_def Let_def tail buf' base')
  qed
  moreover have "channelsOk (proc ?P')"
    using ch by (simp add: channelsOk_def waiters' made' closed' split: option.splits)
  moreover have "callsAccount (proc ?P')"
  proof -
    have "map val (take k ?xs) @ map val (drop k ?xs) = map val ?xs"
      by (simp flip: map_append)
    with ca show ?thesis
      by (simp add: callsAccount_def eq)
  qed
  moreover have "headClaimed (dist (proc ?P'))"
  proof (cases "k < length ?xs")
    case True
    with slot [of k] claims_nonneg [of "readers P" "basePosition ?D + int k"] stop
    have "0 < refcount (?xs ! k)" by simp
    with True show ?thesis by (simp add: headClaimed_iff buf')
  next
    case False
    then show ?thesis by (simp add: headClaimed_iff buf')
  qed
  ultimately show ?thesis
    by (simp add: invariant_def consistent_def)
qed

subsection \<open>Every method keeps the invariant\<close>

lemmas inv_defs = invariant_def consistent_def refcountsExact_def readersInRange_def
  historyKept_def channelsOk_def callsAccount_def tailPosition_def

lemma step_Subscribe:
  assumes "invariant P"
  shows "invariant (step DoSubscribe P)"
  using assms
  by (auto simp: inv_defs headClaimed_iff Subscribe_def Let_def claims_append
           split: option.splits)

lemma step_WaitChan:
  assumes "invariant P"
  shows "invariant (step (DoWaitChan i) P)"
  using assms
  by (auto simp: inv_defs headClaimed_iff WaitChan_def Let_def
           split: option.splits distributorRef.splits)


lemma Submit_returns:
  assumes "channelsOk st"
  shows "fst (Submit v st) = Returned ()"
  using assms
  by (auto simp: Submit_def Let_def channelsOk_def runCallbacks_def split: option.splits)

lemma step_Submit:
  assumes "invariant P"
  shows "invariant (step (DoSubmit v) P)"
proof -
  let ?st = "proc P"
  let ?D = "dist ?st"
  from assms have rc: "refcountsExact P" and rg: "readersInRange P" and hk: "historyKept P"
    and ch: "channelsOk ?st" and ca: "callsAccount ?st" and hd: "headClaimed ?D"
    by (simp_all add: invariant_def consistent_def)
  show ?thesis
  proof (cases "buf ?D = [] \<and> nextRefcount ?D = 0")
    case True
    then have eq0: "step (DoSubmit v) P =
        P\<lparr>proc := ?st\<lparr>calls := calls ?st @ [OnSubmit v, OnFullyConsumed v]\<rparr>\<rparr>"
      by (simp add: Submit_def runCallbacks_def)
    from assms True show ?thesis
      unfolding eq0 by (simp add: inv_defs headClaimed_iff split: option.splits)
  next
    case False
    define c' where "c' = (case waiters ?D of None \<Rightarrow> closed ?st | Some c \<Rightarrow> insert c (closed ?st))"
    define D' where "D' = ?D\<lparr>buf := buf ?D @ [\<lparr>refcount = nextRefcount ?D, val = v\<rparr>],
       nextRefcount := 0, waiters := None\<rparr>"
    define P' where "P' = P\<lparr>proc := ?st\<lparr>dist := D', closed := c',
              calls := calls ?st @ [OnSubmit v, OnBufsizeChange (int (length (buf ?D)) + 1)]\<rparr>,
          appended := appended P @ [v]\<rparr>"
    have eq: "step (DoSubmit v) P = P'"
      using False ch
      by (auto simp: Submit_def runCallbacks_def Let_def channelsOk_def c'_def D'_def P'_def
               split: option.splits)
    have top: "claims (readers P) (tailPosition ?D + 1) = 0"
      using rg by (intro claims_zero) (auto simp: readersInRange_def Let_def)
    have "refcountsExact P'"
      using rc top
      by (auto simp: P'_def D'_def refcountsExact_def Let_def tailPosition_def nth_append
            less_Suc_eq ac_simps)
    moreover have "readersInRange P'"
      using rg by (auto simp: P'_def D'_def readersInRange_def Let_def tailPosition_def)
    moreover have "historyKept P'"
      using hk rg
      by (auto simp: P'_def D'_def historyKept_def readersInRange_def Let_def tailPosition_def)
    moreover have "channelsOk (proc P')"
      using ch by (auto simp: P'_def D'_def c'_def channelsOk_def split: option.splits)
    moreover have "callsAccount (proc P')"
      using ca by (simp add: P'_def D'_def callsAccount_def)
    moreover have "headClaimed (dist (proc P'))"
    proof (cases "buf ?D = []")
      case True
      with False have "nextRefcount ?D \<noteq> 0" by simp
      moreover have "0 \<le> nextRefcount ?D"
        using rc by (simp add: refcountsExact_def Let_def claims_nonneg)
      ultimately show ?thesis
        using True by (simp add: P'_def D'_def headClaimed_iff)
    next
      case False
      with hd show ?thesis
        by (simp add: P'_def D'_def headClaimed_iff nth_append)
    qed
    ultimately show ?thesis
      unfolding eq by (simp add: invariant_def consistent_def)
  qed
qed


lemma step_Consume:
  assumes "invariant P"
  shows "invariant (step (DoConsume i) P)"
proof -
  let ?st = "proc P"
  let ?D = "dist ?st"
  let ?xs = "buf ?D"
  let ?r = "readers P ! i"
  from assms have rc: "refcountsExact P" and rg: "readersInRange P" and hk: "historyKept P"
    and ch: "channelsOk ?st" and ca: "callsAccount ?st"
    by (simp_all add: invariant_def consistent_def)
  show ?thesis
  proof (cases "i < length (readers P) \<and> d ?r = Ref \<and> basePosition ?D \<le> position ?r
                  \<and> position ?r < tailPosition ?D")
    case False
    then have "step (DoConsume i) P = P"
      by (auto simp: Consume_def Let_def tailPosition_def split: distributorRef.splits)
    with assms show ?thesis by simp
  next
    case True
    define idx where "idx = nat (position ?r - basePosition ?D)"
    have idx: "idx < length ?xs" "position ?r = basePosition ?D + int idx"
      using True by (auto simp: idx_def tailPosition_def)
    define D1 where "D1 = ?D\<lparr>buf := addRefcount idx (- 1) ?xs\<rparr>"
    define D2 where "D2 =
      (if idx + 1 < length ?xs
       then D1\<lparr>buf := addRefcount (idx + 1) 1 (buf D1)\<rparr>
       else D1\<lparr>nextRefcount := nextRefcount D1 + 1\<rparr>)"
    define P1 where "P1 = P\<lparr>proc := ?st\<lparr>dist := D2\<rparr>,
        readers := (readers P)[i := ?r\<lparr>position := position ?r + 1\<rparr>]\<rparr>"
    have range: "\<not> (position ?r - basePosition ?D < 0
                    \<or> int (length ?xs) \<le> position ?r - basePosition ?D)"
      using True by (simp add: tailPosition_def)
    have next_iff: "position ?r - basePosition ?D + 1 < int (length ?xs) \<longleftrightarrow>
                    idx + 1 < length ?xs"
      and next_nat: "nat (position ?r - basePosition ?D + 1) = idx + 1"
      using True by (auto simp: idx_def)
    have live: "d ?r = Ref" using True by simp
    have "Consume ?r ?st =
        (Returned (val (?xs ! idx)), ?r\<lparr>position := position ?r + 1\<rparr>,
         cleanupOldEvents (?st\<lparr>dist := D2\<rparr>))"
      using range live
      by (simp add: Consume_def Let_def next_iff next_nat D1_def D2_def
               flip: idx_def)
    with True have eq: "step (DoConsume i) P = P1\<lparr>proc := cleanupOldEvents (proc P1)\<rparr>"
      by (simp add: P1_def)
    have len2: "length (buf D2) = length ?xs" and base2: "basePosition D2 = basePosition ?D"
      and val2: "map val (buf D2) = map val ?xs" and wait2: "waiters D2 = waiters ?D"
      by (simp_all add: D2_def D1_def)
    have cl: "claims (readers P1) p = claims (readers P) p
                - (if position ?r = p then 1 else 0) + (if position ?r + 1 = p then 1 else 0)"
      for p
      using True by (simp add: P1_def claims_update)
    have dist1: "dist (proc P1) = D2"
      by (simp add: P1_def)
    have next2: "nextRefcount D2 = nextRefcount ?D + (if idx + 1 < length ?xs then 0 else 1)"
      by (simp add: D2_def D1_def)
    have ref2: "refcount (buf D2 ! j) =
        refcount (?xs ! j) - (if j = idx then 1 else 0) + (if j = idx + 1 then 1 else 0)"
      if "j < length ?xs" for j
      using that by (auto simp: D2_def D1_def refcount_addRefcount)
    have "nextRefcount D2 = claims (readers P1) (tailPosition D2)"
      using rc idx
      by (auto simp: refcountsExact_def Let_def tailPosition_def next2 len2 base2 cl)
    moreover have "refcount (buf D2 ! j) = claims (readers P1) (basePosition D2 + int j)"
      if "j < length (buf D2)" for j
      using rc idx that
      by (auto simp: refcountsExact_def Let_def ref2 len2 base2 cl)
    ultimately have "refcountsExact P1"
      by (simp add: refcountsExact_def Let_def dist1)
    moreover have "readersInRange P1"
    proof -
      have sub: "set (readers P1) \<subseteq> insert (?r\<lparr>position := position ?r + 1\<rparr>) (set (readers P))"
        by (simp add: P1_def set_update_subset_insert)
      have "basePosition ?D \<le> position r' \<and> position r' \<le> tailPosition ?D"
        if "r' \<in> set (readers P1)" "d r' = Ref" for r'
      proof (cases "r' = ?r\<lparr>position := position ?r + 1\<rparr>")
        case moved: True
        with True show ?thesis by simp
      next
        case False
        with sub that have "r' \<in> set (readers P)" by blast
        with rg that show ?thesis by (simp add: readersInRange_def Let_def)
      qed
      moreover have "0 \<le> basePosition ?D"
        using rg by (simp add: readersInRange_def Let_def)
      moreover have "tailPosition D2 = tailPosition ?D"
        by (simp add: tailPosition_def len2 base2)
      ultimately show ?thesis
        by (simp add: readersInRange_def Let_def dist1 base2)
    qed
    moreover have "historyKept P1"
      using hk
      by (simp add: historyKept_def Let_def tailPosition_def)
         (simp add: P1_def len2 base2 val2)
    moreover have "channelsOk (proc P1)"
      using ch by (simp add: channelsOk_def P1_def wait2 split: option.splits)
    moreover have "callsAccount (proc P1)"
      using ca by (simp add: callsAccount_def P1_def val2)
    ultimately have "consistent P1"
      by (simp add: consistent_def)
    then show ?thesis
      unfolding eq by (rule cleanupOldEvents_consistent)
  qed
qed


lemma step_Unsubscribe:
  assumes "invariant P"
  shows "invariant (step (DoUnsubscribe i) P)"
proof -
  let ?st = "proc P"
  let ?D = "dist ?st"
  let ?xs = "buf ?D"
  let ?r = "readers P ! i"
  let ?rs' = "(readers P)[i := ?r\<lparr>d := Nil\<rparr>]"
  from assms have rc: "refcountsExact P" and rg: "readersInRange P" and hk: "historyKept P"
    and ch: "channelsOk ?st" and ca: "callsAccount ?st" and hd: "headClaimed ?D"
    by (simp_all add: invariant_def consistent_def)
  show ?thesis
  proof (cases "i < length (readers P) \<and> d ?r = Ref")
    case False
    then have "step (DoUnsubscribe i) P = P"
      by (auto simp: Unsubscribe_def Let_def split: distributorRef.splits)
    with assms show ?thesis by simp
  next
    case True
    then have "?r \<in> set (readers P)" by simp
    with rg True have pos: "basePosition ?D \<le> position ?r" "position ?r \<le> tailPosition ?D"
      by (simp_all add: readersInRange_def Let_def)
    have base0: "0 \<le> basePosition ?D"
      using rg by (simp add: readersInRange_def Let_def)
    have live: "d ?r = Ref" using True by simp
    have cl: "claims ?rs' p = claims (readers P) p - (if position ?r = p then 1 else 0)" for p
      using True by (simp add: claims_update)
    have range': "basePosition ?D \<le> position r' \<and> position r' \<le> tailPosition ?D"
      if "r' \<in> set ?rs'" "d r' = Ref" for r'
    proof -
      have "set ?rs' \<subseteq> insert (?r\<lparr>d := Nil\<rparr>) (set (readers P))"
        by (rule set_update_subset_insert)
      with that have "r' \<in> set (readers P)" by auto
      with rg that show ?thesis by (simp add: readersInRange_def Let_def)
    qed
    show ?thesis
    proof (cases "position ?r < tailPosition ?D")
      case tail: False
      with pos have at_tail: "position ?r = tailPosition ?D" by simp
      define P1 where "P1 = P\<lparr>proc := ?st\<lparr>dist := ?D\<lparr>nextRefcount := nextRefcount ?D - 1\<rparr>\<rparr>,
          readers := ?rs'\<rparr>"
      have "Unsubscribe ?r ?st =
          (Returned (), ?r\<lparr>d := Nil\<rparr>, ?st\<lparr>dist := ?D\<lparr>nextRefcount := nextRefcount ?D - 1\<rparr>\<rparr>)"
        using live tail by (simp add: Unsubscribe_def Let_def tailPosition_def)
      with True have eq: "step (DoUnsubscribe i) P = P1"
        by (simp add: P1_def)
      have "refcountsExact P1"
        using rc at_tail
        by (auto simp: refcountsExact_def Let_def P1_def cl tailPosition_def)
      moreover have "readersInRange P1"
        using range' base0 by (simp add: readersInRange_def Let_def P1_def tailPosition_def)
      moreover have "historyKept P1"
        using hk by (simp add: historyKept_def Let_def P1_def tailPosition_def)
      moreover have "channelsOk (proc P1)"
        using ch by (simp add: channelsOk_def P1_def split: option.splits)
      moreover have "callsAccount (proc P1)"
        using ca by (simp add: callsAccount_def P1_def)
      moreover have "headClaimed (dist (proc P1))"
        using hd by (simp add: headClaimed_iff P1_def)
      ultimately show ?thesis
        unfolding eq by (simp add: invariant_def consistent_def)
    next
      case inside: True
      define idx where "idx = nat (position ?r - basePosition ?D)"
      have idx: "idx < length ?xs" "position ?r = basePosition ?D + int idx"
        using inside pos by (auto simp: idx_def tailPosition_def)
      define D1 where "D1 = ?D\<lparr>buf := addRefcount idx (- 1) ?xs\<rparr>"
      define P1 where "P1 = P\<lparr>proc := ?st\<lparr>dist := D1\<rparr>, readers := ?rs'\<rparr>"
      have idx0: "position ?r = basePosition ?D \<longleftrightarrow> idx = 0"
        using pos by (auto simp: idx_def)
      have "Unsubscribe ?r ?st =
          (Returned (), ?r\<lparr>d := Nil\<rparr>,
           if idx = 0 then cleanupOldEvents (?st\<lparr>dist := D1\<rparr>) else ?st\<lparr>dist := D1\<rparr>)"
        using live inside pos
        by (simp add: Unsubscribe_def Let_def tailPosition_def idx0 D1_def flip: idx_def)
      with True have eq: "step (DoUnsubscribe i) P =
          (if idx = 0 then P1\<lparr>proc := cleanupOldEvents (proc P1)\<rparr> else P1)"
        by (simp add: P1_def)
      have "refcountsExact P1"
        using rc idx
        by (auto simp: refcountsExact_def Let_def P1_def D1_def cl tailPosition_def
              refcount_addRefcount)
      moreover have "readersInRange P1"
        using range' base0
        by (simp add: readersInRange_def Let_def P1_def D1_def tailPosition_def)
      moreover have "historyKept P1"
        using hk by (simp add: historyKept_def Let_def P1_def D1_def tailPosition_def)
      moreover have "channelsOk (proc P1)"
        using ch by (simp add: channelsOk_def P1_def D1_def split: option.splits)
      moreover have "callsAccount (proc P1)"
        using ca by (simp add: callsAccount_def P1_def D1_def)
      ultimately have con: "consistent P1"
        by (simp add: consistent_def)
      show ?thesis
      proof (cases "idx = 0")
        case True
        with eq con show ?thesis
          by (simp add: cleanupOldEvents_consistent)
      next
        case False
        from idx have nonempty: "0 < length ?xs" "?xs \<noteq> []" by auto
        with False have "refcount (addRefcount idx (- 1) ?xs ! 0) = refcount (?xs ! 0)"
          by (simp add: refcount_addRefcount)
        with hd nonempty have "headClaimed (dist (proc P1))"
          by (simp add: headClaimed_iff P1_def D1_def)
        with False eq con show ?thesis
          by (simp add: invariant_def)
      qed
    qed
  qed
qed

lemma invariant_start: "invariant start"
  by (simp add: inv_defs headClaimed_iff start_def initial_def New_def closedChannel_def)

lemma invariant_step: "invariant P \<Longrightarrow> invariant (step op P)"
  by (cases op)
     (simp_all only: step_Submit step_Subscribe step_WaitChan step_Consume step_Unsubscribe)

lemma exec_snoc: "exec (ops @ [op]) = step op (exec ops)"
  by (simp add: exec_def)

lemma invariant_exec: "invariant (exec ops)"
proof (induction ops rule: rev_induct)
  case Nil
  show ?case by (simp add: exec_def invariant_start)
next
  case (snoc op ops)
  then show ?case by (simp only: exec_snoc invariant_step)
qed


subsection \<open>Reference counts, the head slot and the callbacks of a running program\<close>

lemmas run_simps = exec_def start_def initial_def New_def Subscribe_def Submit_def Consume_def
  Unsubscribe_def WaitChan_def runCallbacks_def cleanupOldEvents_eq unclaimed_def
  addRefcount_def Let_def closedChannel_def claims_def tailPosition_def

lemma cleanupOldEvents_idle:
  assumes "headClaimed (dist st)"
  shows "cleanupOldEvents st = st"
proof (cases "buf (dist st)")
  case Nil
  then show ?thesis by (simp add: cleanupOldEvents_def)
next
  case (Cons e es)
  with assms have "\<not> unclaimed e" by (simp add: headClaimed_def unclaimed_def)
  with Cons show ?thesis by (simp add: cleanupOldEvents_eq)
qed

lemma calls_cleanupOldEvents [simp]:
  "submitted (calls (cleanupOldEvents st)) = submitted (calls st)"
  by (simp add: cleanupOldEvents_eq Let_def)

lemma submits_append [simp]: "submits (xs @ ys) = submits xs @ submits ys"
  by (induction xs rule: submits.induct) simp_all

lemma submitted_step:
  "submitted (calls (proc (step op P))) = submitted (calls (proc P)) @ submits [op]"
proof (cases op)
  case (DoSubmit v)
  then show ?thesis
    by (simp add: Submit_def runCallbacks_def Let_def split: option.splits)
next
  case DoSubscribe
  then show ?thesis by (simp add: Subscribe_def Let_def)
next
  case (DoWaitChan i)
  then show ?thesis
    by (simp add: WaitChan_def Let_def split: option.splits distributorRef.splits)
next
  case (DoConsume i)
  then show ?thesis
    by (simp add: Consume_def Let_def split: distributorRef.splits)
next
  case (DoUnsubscribe i)
  then show ?thesis
    by (simp add: Unsubscribe_def Let_def split: distributorRef.splits)
qed

lemma submitted_exec: "submitted (calls (proc (exec ops))) = submits ops"
proof (induction ops rule: rev_induct)
  case Nil
  show ?case by (simp add: exec_def start_def initial_def)
next
  case (snoc op ops)
  then show ?case by (simp add: exec_snoc submitted_step)
qed



text \<open>
  C10. After any sequence of method calls, a buffer that is not empty has a first slot of
  strictly positive refcount, so a trim at that moment would drop nothing. That holds
  in particular after an \<open>Unsubscribe\<close>, whether it ran the trim (index 0) or skipped it
  (index above 0): skipping it there leaves no slot that the trim would have dropped.
\<close>

theorem head_slot_is_claimed:
  "let P = exec ops; D = dist (proc P)
   in (buf D \<noteq> [] \<longrightarrow> 0 < refcount (hd (buf D))) \<and>
      cleanupOldEvents (proc P) = proc P \<and>
      cleanupOldEvents (proc (step (DoUnsubscribe i) P)) = proc (step (DoUnsubscribe i) P)"
proof -
  have "headClaimed (dist (proc (exec ops)))"
    using invariant_exec [of ops] by (simp add: invariant_def)
  moreover have "headClaimed (dist (proc (step (DoUnsubscribe i) (exec ops))))"
    using invariant_step [OF invariant_exec, of "DoUnsubscribe i" ops]
    by (simp add: invariant_def)
  ultimately show ?thesis
    by (simp add: Let_def cleanupOldEvents_idle) (simp add: headClaimed_def split: list.splits)
qed

theorem head_slot_is_claimed_witness:
  "buf (dist (proc (exec [DoSubscribe, DoSubscribe, DoSubmit ''a'', DoSubmit ''b'', DoConsume 0])))
     = [\<lparr>refcount = 1, val = ''a''\<rparr>, \<lparr>refcount = 1, val = ''b''\<rparr>] \<and>
   buf (dist (proc (step (DoUnsubscribe 0)
      (exec [DoSubscribe, DoSubscribe, DoSubmit ''a'', DoSubmit ''b'', DoConsume 0]))))
     = [\<lparr>refcount = 1, val = ''a''\<rparr>, \<lparr>refcount = 0, val = ''b''\<rparr>] \<and>
   cleanupOldEvents (proc (step (DoUnsubscribe 0)
      (exec [DoSubscribe, DoSubscribe, DoSubmit ''a'', DoSubmit ''b'', DoConsume 0]))) =
   proc (step (DoUnsubscribe 0)
      (exec [DoSubscribe, DoSubscribe, DoSubmit ''a'', DoSubmit ''b'', DoConsume 0]))"
  using head_slot_is_claimed
    [of "[DoSubscribe, DoSubscribe, DoSubmit ''a'', DoSubmit ''b'', DoConsume 0]" 0]
  by (simp add: run_simps)

lemma no_live_reader_empty_buffer:
  assumes "invariant P" and "\<forall>r \<in> set (readers P). d r = Nil"
  shows "buf (dist (proc P)) = []"
proof (rule ccontr)
  assume ne: "buf (dist (proc P)) \<noteq> []"
  with assms(1) have "0 < refcount (buf (dist (proc P)) ! 0)"
    by (simp add: invariant_def headClaimed_iff)
  moreover from assms(1) ne
  have "refcount (buf (dist (proc P)) ! 0) = claims (readers P) (basePosition (dist (proc P)))"
    by (simp add: invariant_def consistent_def refcountsExact_def Let_def)
  moreover from assms(2) have "claims (readers P) (basePosition (dist (proc P))) = 0"
    by (intro claims_zero) auto
  ultimately show False by simp
qed


text \<open>
  C2. After any sequence of method calls, the values passed to \<open>onFullyConsumed\<close> so far,
  followed by the values still in the buffer, are exactly the values passed to \<open>Submit\<close>,
  in the order of submission. So an event that has left the buffer (or never entered it)
  has been reported fully consumed exactly once, an event still in the buffer has not been
  reported yet, and no event is reported twice. Once no live Reader is left the buffer is
  empty: every submitted event has then been reported exactly once.
\<close>

theorem fully_consumed_exactly_once:
  "fullyConsumed (calls (proc (exec ops))) @ map val (buf (dist (proc (exec ops)))) =
     submits ops \<and>
   ((\<forall>r \<in> set (readers (exec ops)). d r = Nil) \<longrightarrow>
      fullyConsumed (calls (proc (exec ops))) = submits ops)"
proof -
  have eq: "fullyConsumed (calls (proc (exec ops))) @ map val (buf (dist (proc (exec ops)))) =
     submits ops"
    using invariant_exec [of ops]
    by (simp add: invariant_def consistent_def callsAccount_def submitted_exec)
  moreover have "fullyConsumed (calls (proc (exec ops))) = submits ops"
    if "\<forall>r \<in> set (readers (exec ops)). d r = Nil"
    using eq no_live_reader_empty_buffer [OF invariant_exec that] by simp
  ultimately show ?thesis by blast
qed

theorem fully_consumed_exactly_once_witness:
  "fullyConsumed (calls (proc (exec
      [DoSubmit ''a'', DoSubscribe, DoSubscribe, DoSubmit ''b'', DoConsume 0, DoSubmit ''c'',
       DoConsume 1]))) = [''a'', ''b''] \<and>
   map val (buf (dist (proc (exec
      [DoSubmit ''a'', DoSubscribe, DoSubscribe, DoSubmit ''b'', DoConsume 0, DoSubmit ''c'',
       DoConsume 1])))) = [''c''] \<and>
   submits [DoSubmit ''a'', DoSubscribe, DoSubscribe, DoSubmit ''b'', DoConsume 0, DoSubmit ''c'',
       DoConsume 1] = [''a'', ''b'', ''c''] \<and>
   readers (exec [DoSubscribe, DoSubmit ''a'', DoSubmit ''b'', DoUnsubscribe 0])
     = [\<lparr>d = Nil, position = 0\<rparr>] \<and>
   fullyConsumed (calls (proc (exec [DoSubscribe, DoSubmit ''a'', DoSubmit ''b'', DoUnsubscribe 0])))
     = [''a'', ''b'']"
  using fully_consumed_exactly_once
    [of "[DoSubmit ''a'', DoSubscribe, DoSubscribe, DoSubmit ''b'', DoConsume 0, DoSubmit ''c'',
       DoConsume 1]"]
    fully_consumed_exactly_once
    [of "[DoSubscribe, DoSubmit ''a'', DoSubmit ''b'', DoUnsubscribe 0]"]
  by (simp add: run_simps)

subsection \<open>Buffer size reports and use after Unsubscribe\<close>

lemma reportsLength_cleanupOldEvents: "reportsLength st (cleanupOldEvents st)"
proof -
  from cleanupOldEvents_index [of st]
  obtain k where k: "k \<le> length (buf (dist st))"
    and eq: "cleanupOldEvents st =
       st\<lparr>dist := (dist st)\<lparr>buf := drop k (buf (dist st)),
                 basePosition := basePosition (dist st) + int k\<rparr>,
          calls := calls st @ map (\<lambda>e. OnFullyConsumed (val e)) (take k (buf (dist st))) @
            (if k = 0 then [] else [OnBufsizeChange (int (length (buf (dist st)) - k))])\<rparr>"
    by blast
  from k show ?thesis
    by (auto simp: reportsLength_def eq)
qed

lemma reportsLength_after_update:
  assumes "calls st1 = calls st" and "length (buf (dist st1)) = length (buf (dist st))"
  shows "reportsLength st (cleanupOldEvents st1)"
  using reportsLength_cleanupOldEvents [of st1] assms
  by (simp add: reportsLength_def)

lemma reportsLength_refl: "reportsLength st st"
  by (simp add: reportsLength_def)

lemma reportsLength_Submit:
  "fst (Submit v st) = Returned () \<Longrightarrow> reportsLength st (snd (Submit v st))"
  by (auto simp: Submit_def Let_def runCallbacks_def reportsLength_def
           split: option.splits if_splits)

lemma reportsLength_Subscribe: "reportsLength st (snd (Subscribe st))"
  by (simp add: Subscribe_def Let_def reportsLength_def)

lemma reportsLength_WaitChan: "reportsLength st (snd (WaitChan r st))"
  by (simp add: WaitChan_def Let_def reportsLength_def
           split: option.splits distributorRef.splits)

lemma reportsLength_Consume: "reportsLength st (snd (snd (Consume r st)))"
  by (simp add: Consume_def Let_def reportsLength_refl reportsLength_after_update
           split: distributorRef.splits)

lemma reportsLength_Unsubscribe: "reportsLength st (snd (snd (Unsubscribe r st)))"
  by (simp add: Unsubscribe_def Let_def reportsLength_refl reportsLength_after_update
           split: distributorRef.splits)
     (simp add: reportsLength_def)

lemma channelsOk_exec: "channelsOk (proc (exec ops))"
  using invariant_exec [of ops] by (simp add: invariant_def consistent_def)

lemma reportsLength_step:
  "reportsLength (proc (exec ops)) (proc (step op (exec ops)))"
proof (cases op)
  case (DoSubmit v)
  have "reportsLength (proc (exec ops)) (snd (Submit v (proc (exec ops))))"
    by (rule reportsLength_Submit) (rule Submit_returns [OF channelsOk_exec])
  with DoSubmit show ?thesis by (simp add: split_beta)
next
  case DoSubscribe
  with reportsLength_Subscribe [of "proc (exec ops)"] show ?thesis
    by (simp add: split_beta)
next
  case (DoWaitChan i)
  with reportsLength_WaitChan [of "proc (exec ops)"] show ?thesis
    by (simp add: reportsLength_refl)
next
  case (DoConsume i)
  with reportsLength_Consume [of "proc (exec ops)"] show ?thesis
    by (simp add: split_beta reportsLength_refl)
next
  case (DoUnsubscribe i)
  with reportsLength_Unsubscribe [of "proc (exec ops)"] show ?thesis
    by (simp add: split_beta reportsLength_refl)
qed

text \<open>
  C8. A trim, from any state, calls \<open>onBufsizeChange\<close> once with the new length of the
  buffer when it has changed that length, and not at all otherwise; so does every
  \<open>Submit\<close> that returns; in a running program \<open>Submit\<close> always returns, and every method
  call reports the new length exactly when it has changed the length.
\<close>

theorem bufsize_reports_track_length:
  "reportsLength st (cleanupOldEvents st) \<and>
   (fst (Submit v st) = Returned () \<longrightarrow> reportsLength st (snd (Submit v st))) \<and>
   fst (Submit v (proc (exec ops))) = Returned () \<and>
   reportsLength (proc (exec ops)) (proc (step op (exec ops)))"
  using reportsLength_cleanupOldEvents [of st] reportsLength_Submit [of v st]
    Submit_returns [OF channelsOk_exec, of v ops] reportsLength_step [of ops op]
  by simp

theorem bufsize_reports_track_length_witness:
  "fst (Submit ''a'' (snd (Subscribe initial))) = Returned () \<and>
   length (buf (dist (snd (Subscribe (initial :: string state))))) = 0 \<and>
   length (buf (dist (snd (Submit ''a'' (snd (Subscribe initial)))))) = 1 \<and>
   bufsizeChanges (calls (snd (Submit ''a'' (snd (Subscribe initial))))) = [1] \<and>
   bufsizeChanges (calls (cleanupOldEvents
     (initial\<lparr>dist := New\<lparr>buf := [\<lparr>refcount = 0, val = ''a''\<rparr>,
                                 \<lparr>refcount = 2, val = ''b''\<rparr>]\<rparr>\<rparr>))) = [1] \<and>
   bufsizeChanges (calls (proc (step (DoSubmit ''c'') (exec [DoSubmit ''a''])))) = []"
  using bufsize_reports_track_length
    [of "initial\<lparr>dist := New\<lparr>buf := [\<lparr>refcount = 0, val = ''a''\<rparr>,
                                     \<lparr>refcount = 2, val = ''b''\<rparr>]\<rparr>\<rparr>"
        "''a''" "[DoSubmit ''a'']" "DoSubmit ''c''"]
    bufsize_reports_track_length
    [of "snd (Subscribe initial)" "''a''" "[]" "DoSubscribe"]
  by (simp add: run_simps reportsLength_def)

text \<open>
  C9. Once \<open>Unsubscribe\<close> has returned on a Reader, \<open>WaitChan\<close>, \<open>Consume\<close> and \<open>Unsubscribe\<close>
  on that Reader panic with a nil dereference, in whatever state the distributor is by
  then, and leave that state and the Reader as they were.
\<close>

theorem use_after_Unsubscribe_panics:
  assumes "Unsubscribe r st = (Returned (), r', st')"
  shows "WaitChan r' st2 = (Panicked NilDereference, st2) \<and>
         Consume r' st2 = (Panicked NilDereference, r', st2) \<and>
         Unsubscribe r' st2 = (Panicked NilDereference, r', st2)"
proof -
  from assms have "d r' = Nil"
    by (auto simp: Unsubscribe_def Let_def split: distributorRef.splits if_splits)
  then show ?thesis
    by (simp add: WaitChan_def Consume_def Unsubscribe_def)
qed

theorem use_after_Unsubscribe_panics_witness:
  "Unsubscribe \<lparr>d = Ref, position = 0\<rparr> (snd (Subscribe (initial :: string state))) =
     (Returned (), \<lparr>d = Nil, position = 0\<rparr>, initial) \<and>
   WaitChan \<lparr>d = Nil, position = 0\<rparr> (initial :: string state) =
     (Panicked NilDereference, initial) \<and>
   Consume \<lparr>d = Nil, position = 0\<rparr> (initial :: string state) =
     (Panicked NilDereference, \<lparr>d = Nil, position = 0\<rparr>, initial) \<and>
   Unsubscribe \<lparr>d = Nil, position = 0\<rparr> (initial :: string state) =
     (Panicked NilDereference, \<lparr>d = Nil, position = 0\<rparr>, initial)"
proof -
  have h: "Unsubscribe \<lparr>d = Ref, position = 0\<rparr> (snd (Subscribe (initial :: string state))) =
     (Returned (), \<lparr>d = Nil, position = 0\<rparr>, initial)"
    by (simp add: run_simps)
  from use_after_Unsubscribe_panics [OF h, of initial] h show ?thesis
    by simp
qed

subsection \<open>Consume\<close>

lemma Consume_ready:
  assumes "d r = Ref" and "basePosition (dist st) \<le> position r"
    and "position r < tailPosition (dist st)"
  shows "Consume r st =
     (let D = dist st;
          idx = nat (position r - basePosition D);
          D1 = D\<lparr>buf := addRefcount idx (- 1) (buf D)\<rparr>;
          D2 = (if idx + 1 < length (buf D1)
                then D1\<lparr>buf := addRefcount (idx + 1) 1 (buf D1)\<rparr>
                else D1\<lparr>nextRefcount := nextRefcount D1 + 1\<rparr>)
      in (Returned (val (buf D ! idx)), r\<lparr>position := position r + 1\<rparr>,
          cleanupOldEvents (st\<lparr>dist := D2\<rparr>)))"
proof -
  let ?D = "dist st"
  define idx where "idx = nat (position r - basePosition ?D)"
  have range: "\<not> (position r - basePosition ?D < 0
                  \<or> int (length (buf ?D)) \<le> position r - basePosition ?D)"
    using assms by (simp add: tailPosition_def)
  have next_iff: "position r - basePosition ?D + 1 < int (length (buf ?D)) \<longleftrightarrow>
                  idx + 1 < length (buf ?D)"
    and next_nat: "nat (position r - basePosition ?D + 1) = idx + 1"
    using assms by (auto simp: idx_def)
  show ?thesis
    using range assms(1)
    by (simp add: Consume_def Let_def next_iff next_nat flip: idx_def)
qed

lemma appended_step: "\<exists>zs. appended (step op P) = appended P @ zs"
  by (cases op) (simp_all add: split_beta)

lemma appended_exec_prefix: "prefix (appended (exec ops)) (appended (exec (ops @ ops')))"
proof (induction ops' rule: rev_induct)
  case Nil
  show ?case by simp
next
  case (snoc op ops')
  from appended_step [of op "exec (ops @ ops')"]
  have "prefix (appended (exec (ops @ ops'))) (appended (exec (ops @ ops' @ [op])))"
    by (auto simp: exec_snoc simp flip: append_assoc)
  with snoc show ?case by (rule prefix_order.trans)
qed

lemma appended_step_subseq:
  "subseq (appended P) xs \<Longrightarrow> subseq (appended (step op P)) (xs @ submits [op])"
  by (cases op) (auto simp: split_beta intro: subseq_rev_drop_many)

lemma appended_exec_subseq: "subseq (appended (exec ops)) (submits ops)"
proof (induction ops rule: rev_induct)
  case Nil
  show ?case by (simp add: exec_def start_def)
next
  case (snoc op ops)
  then show ?case by (simp add: exec_snoc appended_step_subseq)
qed

lemma consumedFrom_snoc:
  "consumedFrom i P (ops @ [op]) =
     consumedFrom i P ops @ consumedIn i op (foldl (\<lambda>P op. step op P) P ops)"
  by (induction ops arbitrary: P) simp_all

lemma consumedBy_snoc: "consumedBy i (ops @ [op]) = consumedBy i ops @ consumedIn i op (exec ops)"
  by (simp add: consumedBy_def exec_def consumedFrom_snoc)

lemma slot_value_is_appended:
  assumes "invariant P" and "basePosition (dist (proc P)) \<le> p"
    and "p < tailPosition (dist (proc P))"
  shows "val (buf (dist (proc P)) ! nat (p - basePosition (dist (proc P)))) = appended P ! nat p"
    and "nat p < length (appended P)" and "0 \<le> p"
proof -
  let ?D = "dist (proc P)"
  let ?idx = "nat (p - basePosition ?D)"
  from assms(1) have rg: "readersInRange P" and hk: "historyKept P"
    by (simp_all add: invariant_def consistent_def)
  have base0: "0 \<le> basePosition ?D"
    using rg by (simp add: readersInRange_def Let_def)
  have len: "int (length (appended P)) = basePosition ?D + int (length (buf ?D))"
    using hk by (simp add: historyKept_def Let_def tailPosition_def)
  from assms(2,3) have idx: "?idx < length (buf ?D)"
    by (simp add: tailPosition_def)
  have "val (buf ?D ! ?idx) = map val (buf ?D) ! ?idx"
    using idx by simp
  also have "\<dots> = drop (nat (basePosition ?D)) (appended P) ! ?idx"
    using hk by (simp add: historyKept_def Let_def)
  also have "\<dots> = appended P ! (nat (basePosition ?D) + ?idx)"
  proof (rule nth_drop)
    from len base0 show "nat (basePosition ?D) \<le> length (appended P)"
      by linarith
  qed
  also have "nat (basePosition ?D) + ?idx = nat p"
    using assms(2) base0 by simp
  finally show "val (buf ?D ! ?idx) = appended P ! nat p" .
  from assms(2,3) len base0 show "nat p < length (appended P)"
    by (simp add: tailPosition_def)
  from assms(2) base0 show "0 \<le> p" by simp
qed

lemma Consume_not_ready:
  assumes "\<not> (d r = Ref \<and> basePosition (dist st) \<le> position r
               \<and> position r < tailPosition (dist st))"
  shows "\<exists>p. Consume r st = (Panicked p, r, st)"
  using assms
  by (auto simp: Consume_def Let_def tailPosition_def split: distributorRef.splits)

lemma position_Unsubscribe: "position (fst (snd (Unsubscribe r st))) = position r"
  by (simp add: Unsubscribe_def Let_def split: distributorRef.splits)

lemma step_effect_on_reader:
  assumes inv: "invariant P" and i: "i < length (readers P)"
  shows "i < length (readers (step op P)) \<and>
     (consumedIn i op P = [] \<and>
        position (readers (step op P) ! i) = position (readers P ! i)
      \<or>
      consumedIn i op P = [appended P ! nat (position (readers P ! i))] \<and>
        position (readers (step op P) ! i) = position (readers P ! i) + 1 \<and>
        0 \<le> position (readers P ! i) \<and>
        nat (position (readers P ! i)) < length (appended P))"
proof (cases op)
  case (DoSubmit v)
  with i show ?thesis by (simp add: split_beta)
next
  case DoSubscribe
  with i show ?thesis by (simp add: split_beta nth_append)
next
  case (DoWaitChan k)
  with i show ?thesis by simp
next
  case (DoUnsubscribe k)
  with i show ?thesis
    by (simp add: split_beta nth_list_update position_Unsubscribe)
next
  case (DoConsume k)
  let ?r = "readers P ! i"
  let ?D = "dist (proc P)"
  show ?thesis
  proof (cases "k = i")
    case False
    with DoConsume i show ?thesis
      by (simp add: split_beta nth_list_update)
  next
    case True
    show ?thesis
    proof (cases "d ?r = Ref \<and> basePosition ?D \<le> position ?r
                    \<and> position ?r < tailPosition ?D")
      case False
      from Consume_not_ready [OF this] obtain p where
        "Consume ?r (proc P) = (Panicked p, ?r, proc P)" by blast
      with DoConsume True i show ?thesis
        by (simp add: returned_def)
    next
      case ready: True
      then have live: "d ?r = Ref" and lo: "basePosition ?D \<le> position ?r"
        and hi: "position ?r < tailPosition ?D" by simp_all
      note fifo = slot_value_is_appended [OF inv lo hi]
      from Consume_ready [OF live lo hi]
      have "fst (Consume ?r (proc P)) =
              Returned (val (buf ?D ! nat (position ?r - basePosition ?D)))"
        and "fst (snd (Consume ?r (proc P))) = ?r\<lparr>position := position ?r + 1\<rparr>"
        by (simp_all add: Let_def)
      with DoConsume True i fifo show ?thesis
        by (simp add: split_beta returned_def)
    qed
  qed
qed

lemma take_drop_append_stable:
  "m + n \<le> length xs \<Longrightarrow> take n (drop m (xs @ zs)) = take n (drop m xs)"
  by simp

lemma consumedBy_block:
  "(i < length (readers (exec ops)) \<longrightarrow>
      int (length (consumedBy i ops)) \<le> position (readers (exec ops) ! i) \<and>
      position (readers (exec ops) ! i) \<le> int (length (appended (exec ops))) \<and>
      consumedBy i ops =
        take (length (consumedBy i ops))
          (drop (nat (position (readers (exec ops) ! i)) - length (consumedBy i ops))
             (appended (exec ops)))) \<and>
   (length (readers (exec ops)) \<le> i \<longrightarrow> consumedBy i ops = [])"
proof (induction ops rule: rev_induct)
  case Nil
  show ?case by (simp add: exec_def start_def consumedBy_def)
next
  case (snoc op ops)
  let ?P = "exec ops"
  let ?P' = "step op ?P"
  let ?c = "consumedBy i ops"
  have inv: "invariant ?P" by (rule invariant_exec)
  from appended_step [of op ?P] obtain zs where zs: "appended ?P' = appended ?P @ zs"
    by blast
  have grow: "length (readers ?P) \<le> length (readers ?P')"
    by (cases op) (simp_all add: split_beta)
  show ?case
  proof (cases "i < length (readers ?P)")
    case old: True
    with snoc have n: "int (length ?c) \<le> position (readers ?P ! i)"
      and p: "position (readers ?P ! i) \<le> int (length (appended ?P))"
      and blk: "?c = take (length ?c)
          (drop (nat (position (readers ?P ! i)) - length ?c) (appended ?P))"
      by simp_all
    let ?p = "position (readers ?P ! i)"
    let ?m = "nat ?p - length ?c"
    have mn: "?m + length ?c = nat ?p" using n by simp
    from step_effect_on_reader [OF inv old, of op]
    have i': "i < length (readers ?P')"
      and eff: "consumedIn i op ?P = [] \<and> position (readers ?P' ! i) = ?p
        \<or> consumedIn i op ?P = [appended ?P ! nat ?p] \<and>
          position (readers ?P' ! i) = ?p + 1 \<and> 0 \<le> ?p \<and> nat ?p < length (appended ?P)"
      by simp_all
    let ?c' = "consumedBy i (ops @ [op])"
    let ?p' = "position (readers (exec (ops @ [op])) ! i)"
    have a': "appended (exec (ops @ [op])) = appended ?P @ zs"
      by (simp add: exec_snoc zs)
    have i'': "i < length (readers (exec (ops @ [op])))"
      using i' by (simp add: exec_snoc)
    have "int (length ?c') \<le> ?p' \<and> ?p' \<le> int (length (appended (exec (ops @ [op])))) \<and>
          ?c' = take (length ?c') (drop (nat ?p' - length ?c') (appended (exec (ops @ [op]))))"
      using eff
    proof
      assume same: "consumedIn i op ?P = [] \<and> position (readers ?P' ! i) = ?p"
      then have c': "?c' = ?c" and p': "?p' = ?p"
        by (simp_all add: consumedBy_snoc exec_snoc)
      have stable: "take (length ?c) (drop ?m (appended ?P @ zs)) =
                    take (length ?c) (drop ?m (appended ?P))"
        using mn p by (intro take_drop_append_stable) simp
      have "?c = take (length ?c) (drop ?m (appended ?P @ zs))"
        by (simp only: stable) (rule blk)
      moreover from p have "?p \<le> int (length (appended ?P @ zs))" by simp
      ultimately show ?thesis
        unfolding c' p' a' using n by blast
    next
      assume more: "consumedIn i op ?P = [appended ?P ! nat ?p] \<and>
          position (readers ?P' ! i) = ?p + 1 \<and> 0 \<le> ?p \<and> nat ?p < length (appended ?P)"
      then have lt: "nat ?p < length (appended ?P)" and p0: "0 \<le> ?p" by simp_all
      from more have c': "?c' = ?c @ [appended ?P ! nat ?p]" and p': "?p' = ?p + 1"
        by (simp_all add: consumedBy_snoc exec_snoc)
      have m': "nat (?p + 1) - Suc (length ?c) = ?m" using p0 n by simp
      have "take (Suc (length ?c)) (drop ?m (appended ?P @ zs)) =
            take (Suc (length ?c)) (drop ?m (appended ?P))"
        using mn lt by (intro take_drop_append_stable) simp
      also have "\<dots> = take (length ?c) (drop ?m (appended ?P)) @ [drop ?m (appended ?P) ! length ?c]"
        using mn lt by (intro take_Suc_conv_app_nth) simp
      also have "drop ?m (appended ?P) ! length ?c = appended ?P ! nat ?p"
        using mn lt by simp
      also have "take (length ?c) (drop ?m (appended ?P)) = ?c"
        by (rule blk [symmetric])
      finally have X: "?c @ [appended ?P ! nat ?p] =
          take (Suc (length ?c)) (drop ?m (appended ?P @ zs))"
        by (rule sym)
      have "?c @ [appended ?P ! nat ?p] =
          take (length (?c @ [appended ?P ! nat ?p]))
            (drop (nat (?p + 1) - length (?c @ [appended ?P ! nat ?p])) (appended ?P @ zs))"
        unfolding length_append_singleton m' by (rule X)
      moreover from n have "int (length (?c @ [appended ?P ! nat ?p])) \<le> ?p + 1" by simp
      moreover from lt p0 have "?p + 1 \<le> int (length (appended ?P @ zs))" by simp
      ultimately show ?thesis
        unfolding c' p' a' by blast
    qed
    then have "i < length (readers (exec (ops @ [op]))) \<longrightarrow>
          int (length ?c') \<le> ?p' \<and> ?p' \<le> int (length (appended (exec (ops @ [op])))) \<and>
          ?c' = take (length ?c') (drop (nat ?p' - length ?c') (appended (exec (ops @ [op]))))"
      by blast
    moreover have "length (readers (exec (ops @ [op]))) \<le> i \<longrightarrow> ?c' = []"
      using i'' by simp
    ultimately show ?thesis by blast
  next
    case new: False
    with snoc have c0: "?c = []" by simp
    from new have in0: "consumedIn i op ?P = []"
      by (cases op) auto
    show ?thesis
    proof (cases "i < length (readers ?P')")
      case False
      with c0 in0 show ?thesis by (simp add: exec_snoc consumedBy_snoc)
    next
      case True
      have same_length: "length (readers ?P') = length (readers ?P)" if "op \<noteq> DoSubscribe"
        using that by (cases op) (simp_all add: split_beta)
      with True new have op: "op = DoSubscribe"
        by auto
      with True new have i: "i = length (readers ?P)"
        by (simp add: split_beta)
      from inv have "int (length (appended ?P)) = tailPosition (dist (proc ?P))"
        by (simp add: invariant_def consistent_def historyKept_def Let_def)
      with op i c0 in0 show ?thesis
        by (simp add: exec_snoc consumedBy_snoc Subscribe_def Let_def tailPosition_def)
    qed
  qed
qed

lemma Consume_ready_explicit:
  assumes "d r = Ref" and "basePosition (dist st) \<le> position r"
    and "position r < tailPosition (dist st)"
  shows "Consume r st =
     (let D = dist st;
          xs = buf D;
          idx = nat (position r - basePosition D);
          ys = xs[idx := (xs ! idx)\<lparr>refcount := refcount (xs ! idx) - 1\<rparr>];
          D2 = (if idx + 1 < length xs
                then D\<lparr>buf := ys[idx + 1 := (ys ! (idx + 1))
                                     \<lparr>refcount := refcount (ys ! (idx + 1)) + 1\<rparr>]\<rparr>
                else D\<lparr>buf := ys, nextRefcount := nextRefcount D + 1\<rparr>);
          dropped = takeWhile (\<lambda>e. refcount e = 0) (buf D2);
          kept = dropWhile (\<lambda>e. refcount e = 0) (buf D2)
      in (Returned (val (xs ! idx)), r\<lparr>position := position r + 1\<rparr>,
          st\<lparr>dist := D2\<lparr>buf := kept,
                          basePosition := basePosition D2 + int (length dropped)\<rparr>,
             calls := calls st @ map (\<lambda>e. OnFullyConsumed (val e)) dropped @
               (if dropped = [] then [] else [OnBufsizeChange (int (length kept))])\<rparr>))"
proof -
  have u: "unclaimed = (\<lambda>e::'a eventInfo. refcount e = 0)"
    by (rule ext) (simp add: unclaimed_def)
  show ?thesis
    unfolding Consume_ready [OF assms] cleanupOldEvents_eq u
    by (simp add: Let_def addRefcount_def)
qed

text \<open>
  C1. In a running program, \<open>Consume\<close> on a live Reader that is ready (its position is
  before the tail) does not panic: the index \<open>idx = position - basePosition\<close> is a slot of
  the buffer, and the call returns the value of that slot and leaves the Reader one
  position further. Before the trim the buffer \<open>buf D2\<close> has the same length and values,
  the refcount of slot \<open>idx\<close> is one less, the refcount of slot \<open>idx + 1\<close> is one more, or
  \<open>nextRefcount\<close> is one more when there is no such slot, and every other refcount is as
  before; the state returned is that buffer with its longest prefix of zero refcounts
  dropped, written out. The value returned is \<open>appended ! position\<close>, where \<open>appended\<close>, the
  values that \<open>Submit\<close> has put into the buffer, only grows at its end and lists submitted
  values in the order of submission. What the Reader has received from its earlier
  \<open>Consume\<close> calls is the block of \<open>appended\<close> that ends just before its position, and this
  call adds the next element to it: the calls of one Reader return the buffered events
  in the order of submission, one per call, none skipped or repeated.
\<close>

theorem Consume_in_submission_order:
  assumes "i < length (readers (exec ops))"
    and "d (readers (exec ops) ! i) = Ref"
    and "position (readers (exec ops) ! i) < tailPosition (dist (proc (exec ops)))"
  shows "let P = exec ops;
             r = readers P ! i;
             st = proc P;
             D = dist st;
             xs = buf D;
             idx = nat (position r - basePosition D);
             ys = xs[idx := (xs ! idx)\<lparr>refcount := refcount (xs ! idx) - 1\<rparr>];
             D2 = (if idx + 1 < length xs
                   then D\<lparr>buf := ys[idx + 1 := (ys ! (idx + 1))
                                        \<lparr>refcount := refcount (ys ! (idx + 1)) + 1\<rparr>]\<rparr>
                   else D\<lparr>buf := ys, nextRefcount := nextRefcount D + 1\<rparr>);
             dropped = takeWhile (\<lambda>e. refcount e = 0) (buf D2);
             kept = dropWhile (\<lambda>e. refcount e = 0) (buf D2);
             n = length (consumedBy i ops)
         in basePosition D \<le> position r \<and> idx < length xs \<and>
            Consume r st =
              (Returned (val (xs ! idx)), r\<lparr>position := position r + 1\<rparr>,
               st\<lparr>dist := D2\<lparr>buf := kept,
                               basePosition := basePosition D2 + int (length dropped)\<rparr>,
                  calls := calls st @ map (\<lambda>e. OnFullyConsumed (val e)) dropped @
                    (if dropped = [] then [] else [OnBufsizeChange (int (length kept))])\<rparr>) \<and>
            length (buf D2) = length xs \<and>
            map val (buf D2) = map val xs \<and>
            refcount (buf D2 ! idx) = refcount (xs ! idx) - 1 \<and>
            (if idx + 1 < length xs
             then refcount (buf D2 ! (idx + 1)) = refcount (xs ! (idx + 1)) + 1 \<and>
                  nextRefcount D2 = nextRefcount D
             else nextRefcount D2 = nextRefcount D + 1) \<and>
            (\<forall>j < length xs. j \<noteq> idx \<and> j \<noteq> idx + 1 \<longrightarrow>
               refcount (buf D2 ! j) = refcount (xs ! j)) \<and>
            readers (step (DoConsume i) P) = (readers P)[i := r\<lparr>position := position r + 1\<rparr>] \<and>
            val (xs ! idx) = appended P ! nat (position r) \<and>
            int n \<le> position r \<and>
            consumedBy i ops = take n (drop (nat (position r) - n) (appended P)) \<and>
            consumedBy i (ops @ [DoConsume i]) = consumedBy i ops @ [appended P ! nat (position r)] \<and>
            prefix (appended P) (appended (exec (ops @ ops'))) \<and>
            subseq (appended P) (submits ops)"
proof -
  let ?P = "exec ops"
  let ?r = "readers ?P ! i"
  let ?st = "proc ?P"
  let ?D = "dist ?st"
  let ?xs = "buf ?D"
  let ?idx = "nat (position ?r - basePosition ?D)"
  let ?ys = "?xs[?idx := (?xs ! ?idx)\<lparr>refcount := refcount (?xs ! ?idx) - 1\<rparr>]"
  let ?D2 = "if ?idx + 1 < length ?xs
             then ?D\<lparr>buf := ?ys[?idx + 1 := (?ys ! (?idx + 1))
                                  \<lparr>refcount := refcount (?ys ! (?idx + 1)) + 1\<rparr>]\<rparr>
             else ?D\<lparr>buf := ?ys, nextRefcount := nextRefcount ?D + 1\<rparr>"
  have inv: "invariant ?P" by (rule invariant_exec)
  then have rg: "readersInRange ?P"
    by (simp add: invariant_def consistent_def)
  from assms have "?r \<in> set (readers ?P)" by simp
  with rg assms have lo: "basePosition ?D \<le> position ?r"
    by (simp add: readersInRange_def Let_def)
  from lo assms have idx: "?idx < length ?xs"
    by (simp add: tailPosition_def)
  note eq = Consume_ready_explicit [OF assms(2) lo assms(3), unfolded Let_def]
  have len2: "length (buf ?D2) = length ?xs"
    by simp
  have val2: "map val (buf ?D2) = map val ?xs"
    using idx by (auto simp: list_eq_iff_nth_eq nth_list_update)
  have rc1: "refcount (buf ?D2 ! ?idx) = refcount (?xs ! ?idx) - 1"
    using idx by simp
  have rc2: "if ?idx + 1 < length ?xs
             then refcount (buf ?D2 ! (?idx + 1)) = refcount (?xs ! (?idx + 1)) + 1 \<and>
                  nextRefcount ?D2 = nextRefcount ?D
             else nextRefcount ?D2 = nextRefcount ?D + 1"
    by simp
  have rc3: "\<forall>j < length ?xs. j \<noteq> ?idx \<and> j \<noteq> ?idx + 1 \<longrightarrow>
               refcount (buf ?D2 ! j) = refcount (?xs ! j)"
    by simp
  have fifo: "val (?xs ! ?idx) = appended ?P ! nat (position ?r)"
    by (rule slot_value_is_appended(1) [OF inv lo assms(3)])
  have rd: "readers (step (DoConsume i) ?P) = (readers ?P)[i := ?r\<lparr>position := position ?r + 1\<rparr>]"
    using assms(1) by (simp add: eq)
  from consumedBy_block [of i ops] assms(1)
  have n: "int (length (consumedBy i ops)) \<le> position ?r"
    and blk: "consumedBy i ops = take (length (consumedBy i ops))
        (drop (nat (position ?r) - length (consumedBy i ops)) (appended ?P))"
    by blast+
  have nxt: "consumedBy i (ops @ [DoConsume i]) = consumedBy i ops @ [appended ?P ! nat (position ?r)]"
    using assms(1) fifo by (simp add: consumedBy_snoc eq returned_def)
  have rest: "basePosition ?D \<le> position ?r \<and> ?idx < length ?xs \<and>
      val (?xs ! ?idx) = appended ?P ! nat (position ?r) \<and>
      prefix (appended ?P) (appended (exec (ops @ ops'))) \<and>
      subseq (appended ?P) (submits ops)"
    using lo idx fifo appended_exec_prefix [of ops ops'] appended_exec_subseq [of ops]
    by blast
  show ?thesis
    unfolding Let_def
    using rest eq rd n blk nxt len2 val2 rc1 rc2 rc3 by blast
qed

lemma run_for_Consume:
  "exec [DoSubscribe, DoSubmit ''a'', DoSubmit ''b'', DoConsume 0] =
     \<lparr>proc = \<lparr>dist = \<lparr>basePosition = 1, buf = [\<lparr>refcount = 1, val = ''b''\<rparr>],
                       nextRefcount = 0, waiters = None\<rparr>,
              made = 1, closed = {0},
              calls = [OnSubmit ''a'', OnBufsizeChange 1, OnSubmit ''b'', OnBufsizeChange 2,
                       OnFullyConsumed ''a'', OnBufsizeChange 1]\<rparr>,
      readers = [\<lparr>d = Ref, position = 1\<rparr>], appended = [''a'', ''b'']\<rparr>"
  by (simp add: run_simps)

theorem Consume_in_submission_order_witness:
  "0 < length (readers (exec [DoSubscribe, DoSubmit ''a'', DoSubmit ''b'', DoConsume 0])) \<and>
   d (readers (exec [DoSubscribe, DoSubmit ''a'', DoSubmit ''b'', DoConsume 0]) ! 0) = Ref \<and>
   position (readers (exec [DoSubscribe, DoSubmit ''a'', DoSubmit ''b'', DoConsume 0]) ! 0)
     < tailPosition (dist (proc (exec [DoSubscribe, DoSubmit ''a'', DoSubmit ''b'', DoConsume 0]))) \<and>
   fst (Consume (readers (exec [DoSubscribe, DoSubmit ''a'', DoSubmit ''b'', DoConsume 0]) ! 0)
          (proc (exec [DoSubscribe, DoSubmit ''a'', DoSubmit ''b'', DoConsume 0]))) = Returned ''b'' \<and>
   dist (snd (snd (Consume (readers (exec [DoSubscribe, DoSubmit ''a'', DoSubmit ''b'', DoConsume 0]) ! 0)
          (proc (exec [DoSubscribe, DoSubmit ''a'', DoSubmit ''b'', DoConsume 0])))))
     = \<lparr>basePosition = 2, buf = [], nextRefcount = 1, waiters = None\<rparr> \<and>
   consumedBy 0 [DoSubscribe, DoSubmit ''a'', DoSubmit ''b'', DoConsume 0] = [''a''] \<and>
   consumedBy 0 ([DoSubscribe, DoSubmit ''a'', DoSubmit ''b'', DoConsume 0] @ [DoConsume 0])
     = [''a'', ''b'']"
proof -
  let ?ops = "[DoSubscribe, DoSubmit ''a'', DoSubmit ''b'', DoConsume 0]"
  have h1: "0 < length (readers (exec ?ops))"
    and h2: "d (readers (exec ?ops) ! 0) = Ref"
    and h3: "position (readers (exec ?ops) ! 0) < tailPosition (dist (proc (exec ?ops)))"
    by (simp_all add: run_for_Consume tailPosition_def)
  have out: "fst (Consume (readers (exec ?ops) ! 0) (proc (exec ?ops))) = Returned ''b''"
    by (simp add: run_for_Consume run_simps)
  have after: "dist (snd (snd (Consume (readers (exec ?ops) ! 0) (proc (exec ?ops))))) =
      \<lparr>basePosition = 2, buf = [], nextRefcount = 1, waiters = None\<rparr>"
    by (simp add: run_for_Consume run_simps)
  have before: "consumedBy 0 ?ops = [''a'']"
    by (simp add: consumedBy_def returned_def run_simps)
  have "appended (exec ?ops) ! nat (position (readers (exec ?ops) ! 0)) = ''b''"
    by (simp add: run_for_Consume)
  moreover from Consume_in_submission_order [OF h1 h2 h3, of "[]"]
  have "consumedBy 0 (?ops @ [DoConsume 0]) =
        consumedBy 0 ?ops @ [appended (exec ?ops) ! nat (position (readers (exec ?ops) ! 0))]"
    unfolding Let_def by blast
  ultimately have "consumedBy 0 (?ops @ [DoConsume 0]) = [''a'', ''b'']"
    by (simp only: before append.simps)
  with h1 h2 h3 out after before show ?thesis
    by blast
qed

subsection \<open>The wakeup channel\<close>




lemma closed_cleanupOldEvents [simp]: "closed (cleanupOldEvents st) = closed st"
  by (simp add: cleanupOldEvents_eq Let_def)








subsection \<open>The legacy variant against the primary one\<close>

lemma EventDistributor_scanFirstNonEmpty_eq:
  "EventDistributor_scanFirstNonEmpty i st = scanFirstNonEmpty i st"
proof (induction i st rule: scanFirstNonEmpty.induct)
  case (1 i st)
  then show ?case
    by (subst EventDistributor_scanFirstNonEmpty.simps, subst scanFirstNonEmpty.simps) simp
qed

lemma EventDistributor_cleanupOldEvents_eq:
  "EventDistributor_cleanupOldEvents st = cleanupOldEvents st"
  by (simp add: EventDistributor_cleanupOldEvents_def cleanupOldEvents_def
        EventDistributor_scanFirstNonEmpty_eq)

lemma legacy_same_but_Consume:
  "EventDistributor_Submit v st = Submit v st"
  "EventDistributor_Subscribe st = Subscribe st"
  "EventReader_WaitChan r st = WaitChan r st"
  "EventReader_Unsubscribe r st = Unsubscribe r st"
  by (simp_all add: EventDistributor_Submit_def Submit_def EventDistributor_Subscribe_def
        Subscribe_def EventReader_WaitChan_def WaitChan_def EventReader_Unsubscribe_def
        Unsubscribe_def EventDistributor_cleanupOldEvents_eq Let_def
      split: distributorRef.splits)

lemma EventReader_Consume_eq:
  "EventReader_Consume r st =
     (case Consume r st of (out, r', st') \<Rightarrow> (out, r, st'))"
  by (simp add: EventReader_Consume_def Consume_def Let_def EventDistributor_cleanupOldEvents_eq
           split: distributorRef.splits)

text \<open>
  C3. The legacy variant is not a duplicate of the primary one. One Reader subscribes and
  \<open>''a''\<close> is submitted. \<open>Reader.Consume\<close> returns \<open>''a''\<close> and moves the Reader to position 1;
  \<open>EventReader.Consume\<close> returns \<open>''a''\<close>, leaves the same distributor state, and leaves
  the Reader at position 0. After that the buffer is empty and \<open>basePosition\<close> is 1, yet
  \<open>EventReader.WaitChan\<close> answers with \<open>closedChannel\<close> (ready), and a second
  \<open>EventReader.Consume\<close> panics on the index \<open>-1\<close>.
\<close>

theorem EventReader_Consume_keeps_position:
  "Consume \<lparr>d = Ref, position = 0\<rparr> (proc (exec [DoSubscribe, DoSubmit ''a''])) =
     (Returned ''a'', \<lparr>d = Ref, position = 1\<rparr>,
      \<lparr>dist = \<lparr>basePosition = 1, buf = [], nextRefcount = 1, waiters = None\<rparr>,
       made = 1, closed = {0},
       calls = [OnSubmit ''a'', OnBufsizeChange 1, OnFullyConsumed ''a'', OnBufsizeChange 0]\<rparr>) \<and>
   EventReader_Consume \<lparr>d = Ref, position = 0\<rparr> (proc (exec [DoSubscribe, DoSubmit ''a''])) =
     (Returned ''a'', \<lparr>d = Ref, position = 0\<rparr>,
      \<lparr>dist = \<lparr>basePosition = 1, buf = [], nextRefcount = 1, waiters = None\<rparr>,
       made = 1, closed = {0},
       calls = [OnSubmit ''a'', OnBufsizeChange 1, OnFullyConsumed ''a'', OnBufsizeChange 0]\<rparr>) \<and>
   fst (EventReader_WaitChan \<lparr>d = Ref, position = 0\<rparr>
      (snd (snd (EventReader_Consume \<lparr>d = Ref, position = 0\<rparr>
         (proc (exec [DoSubscribe, DoSubmit ''a''])))))) = Returned closedChannel \<and>
   fst (EventReader_Consume \<lparr>d = Ref, position = 0\<rparr>
      (snd (snd (EventReader_Consume \<lparr>d = Ref, position = 0\<rparr>
         (proc (exec [DoSubscribe, DoSubmit ''a''])))))) = Panicked IndexOutOfRange"
  by (simp add: EventReader_Consume_eq legacy_same_but_Consume run_simps)

end
